theory Spec2Isabelle
  imports Complex_Main "HOL-Library.Word"
begin

section \<open>Sparse multi-value bin storage (multi\_val\_sparse\_bin.hpp)\<close>

subsection \<open>Undefined behaviour as error values\<close>

text \<open>
  The C++ class checks nothing at run time. Every access outside a vector or array, the
  integer division by zero, a signed sum or difference outside the range of its type,
  the conversion of a floating-point number outside the range of \<open>int\<close>, and a resize
  or reservation of a negative length (which throws \<open>std::length_error\<close>) are undefined
  or fatal in the program; the model reports them as errors, and an operation that
  meets one returns no structure. Running out of memory is not modelled.
\<close>

datatype error = OutOfBounds | DivisionByZero | LengthError | Overflow | CastOutOfRange

definition and_then :: "error + 'a \<Rightarrow> ('a \<Rightarrow> error + 'b) \<Rightarrow> error + 'b" where
  "and_then m f = (case m of Inl e \<Rightarrow> Inl e | Inr x \<Rightarrow> f x)"

text \<open>\<open>xs[i]\<close> for a signed index \<open>i\<close>.\<close>

definition nth_chk :: "'x list \<Rightarrow> int \<Rightarrow> error + 'x" where
  "nth_chk xs i = (if 0 \<le> i \<and> i < int (length xs) then Inr (xs ! nat i) else Inl OutOfBounds)"

text \<open>\<open>xs[i] = v\<close>.\<close>

definition upd_chk :: "'x list \<Rightarrow> int \<Rightarrow> 'x \<Rightarrow> error + 'x list" where
  "upd_chk xs i v = (if 0 \<le> i \<and> i < int (length xs) then Inr (xs[nat i := v]) else Inl OutOfBounds)"

text \<open>
  \<open>for (; i < n; ++i) body\<close> on a signed counter: the loop hands back the counter it
  stopped at together with the state, since \<open>ConstructHistogramInner\<close> continues a
  second loop from the counter of the first.
\<close>

function for_loop :: "int \<Rightarrow> int \<Rightarrow> (int \<Rightarrow> 's \<Rightarrow> error + 's) \<Rightarrow> 's \<Rightarrow> error + int \<times> 's" where
  "for_loop i n body s =
     (if i < n then (case body i s of Inl e \<Rightarrow> Inl e | Inr s' \<Rightarrow> for_loop (i + 1) n body s')
      else Inr (i, s))"
  by pat_completeness auto
termination
  by (relation "measure (\<lambda>(i, n, body, s). nat (n - i))") auto

declare for_loop.simps [simp del]

text \<open>The same loop where the counter is local to the loop.\<close>

definition for_range :: "int \<Rightarrow> int \<Rightarrow> (int \<Rightarrow> 's \<Rightarrow> error + 's) \<Rightarrow> 's \<Rightarrow> error + 's" where
  "for_range i n body s = and_then (for_loop i n body s) (\<lambda>r. Inr (snd r))"

subsection \<open>The data\<close>

text \<open>
  \<open>VAL_T\<close> is an unsigned integer of 8, 16 or 32 bits: a word of the width \<open>'a\<close>.
  \<open>data_size_t\<close>, \<open>score_t\<close> and \<open>hist_t\<close> are declared outside this file.
  \<open>data_size_t\<close> is a signed integer, modelled by \<open>int\<close>.

  \<open>score_t\<close> and \<open>hist_t\<close> are floating-point types (\<open>float\<close> and \<open>double\<close> in
  LightGBM). The model takes them as the type parameters \<open>'s\<close> and \<open>'h\<close>, takes the
  addition \<open>hist += score\<close>, which rounds, as the parameter \<open>add\<close> of the histogram
  operations, and takes \<open>1.0f\<close> as the \<open>1\<close> of \<open>'s\<close>. At \<open>'s = 'h = real\<close> and
  \<open>add = (+)\<close> the sums are exact.
\<close>

type_synonym data_size_t = int

text \<open>
  \<open>data_size_t\<close> is \<open>int32_t\<close> in LightGBM, and \<open>int\<close> has 32 bits as well. A value
  of these types is an \<open>int\<close> of the model inside the range; a sum or a difference of
  the program that leaves the range is an error.
\<close>

definition INT_MAX :: int where
  "INT_MAX = 2147483647"

definition in_int :: "int \<Rightarrow> bool" where
  "in_int x \<longleftrightarrow> - INT_MAX - 1 \<le> x \<and> x \<le> INT_MAX"

definition int_add :: "int \<Rightarrow> int \<Rightarrow> error + int" where
  "int_add a b = (if in_int (a + b) then Inr (a + b) else Inl Overflow)"

definition int_sub :: "int \<Rightarrow> int \<Rightarrow> error + int" where
  "int_sub a b = (if in_int (a - b) then Inr (a - b) else Inl Overflow)"

definition int_mul :: "int \<Rightarrow> int \<Rightarrow> error + int" where
  "int_mul a b = (if in_int (a * b) then Inr (a * b) else Inl Overflow)"

text \<open>
  A \<open>double\<close> is a real number, or a value that is no finite number: an infinity or
  the result of \<open>0.0 / 0.0\<close>. The arithmetic of doubles rounds: the real result of an
  operation is taken to a double by a rounding, which the model has as a parameter. A
  rounding is any function from the real numbers to the doubles that leaves the
  integers up to \<open>2^53\<close>, which are doubles, as they are; \<open>exact\<close> is the one that
  rounds nothing.
\<close>

datatype double = Finite real | NonFinite

typedef rounding =
  "{r :: real \<Rightarrow> double. \<forall>k::int. \<bar>k\<bar> \<le> 2 ^ 53 \<longrightarrow> r (real_of_int k) = Finite (real_of_int k)}"
  morphisms round_to Abs_rounding
  by (rule exI[of _ Finite]) simp

definition exact :: rounding where
  "exact = Abs_rounding Finite"

text \<open>The product of two doubles, and the quotient of two integers as a double.\<close>

definition double_mul :: "rounding \<Rightarrow> double \<Rightarrow> double \<Rightarrow> double" where
  "double_mul rnd a b =
     (case a of NonFinite \<Rightarrow> NonFinite
      | Finite x \<Rightarrow> (case b of NonFinite \<Rightarrow> NonFinite | Finite y \<Rightarrow> round_to rnd (x * y)))"

definition double_div :: "rounding \<Rightarrow> real \<Rightarrow> real \<Rightarrow> double" where
  "double_div rnd a b = (if b = 0 then NonFinite else round_to rnd (a / b))"

text \<open>
  \<open>static_cast<data_size_t>(d)\<close> cuts the fraction of \<open>d\<close> off; it is undefined when
  what is left is outside the range, and for a \<open>d\<close> that is no finite number.
\<close>

definition to_data_size :: "double \<Rightarrow> error + data_size_t" where
  "to_data_size d =
     (case d of NonFinite \<Rightarrow> Inl CastOutOfRange
      | Finite x \<Rightarrow>
          (let t = (if 0 \<le> x then \<lfloor>x\<rfloor> else \<lceil>x\<rceil>)
           in if in_int t then Inr t else Inl CastOutOfRange))"

text \<open>
  The class template: \<open>'v\<close> is \<open>VAL_T\<close>, used at word types only. The fields are
  the members \<open>num_data_\<close>, \<open>num_bin_\<close>, \<open>estimate_element_per_row_\<close>, \<open>data_\<close>,
  \<open>row_ptr_\<close> and \<open>t_data_\<close>, written without the final underscore, which an
  Isabelle name cannot end with.
\<close>

record 'v MultiValSparseBin =
  num_data :: data_size_t
  num_bin :: int
  estimate_element_per_row :: double
  data :: "'v list"
  row_ptr :: "data_size_t list"
  t_data :: "'v list list"

definition RowPtr :: "'v MultiValSparseBin \<Rightarrow> data_size_t \<Rightarrow> error + data_size_t" where
  "RowPtr b idx = nth_chk (row_ptr b) idx"


text \<open>\<open>v.resize(n, z)\<close>: cut to \<open>n\<close> elements, or filled up with \<open>z\<close>.\<close>

definition resize_vec :: "'x list \<Rightarrow> nat \<Rightarrow> 'x \<Rightarrow> 'x list" where
  "resize_vec xs n z = take n xs @ replicate (n - length xs) z"

text \<open>
  \<open>std::copy_n(src, cnt, dst + off)\<close>: both ranges have to lie inside their vectors.
\<close>

definition copy_n :: "'x list \<Rightarrow> nat \<Rightarrow> 'x list \<Rightarrow> nat \<Rightarrow> error + 'x list" where
  "copy_n src cnt dst off =
     (if cnt \<le> length src \<and> off + cnt \<le> length dst
      then Inr (take off dst @ take cnt src @ drop (off + cnt) dst)
      else Inl OutOfBounds)"

text \<open>Division of \<open>int\<close> values in C++: the quotient is cut towards zero.\<close>

definition int_div :: "int \<Rightarrow> int \<Rightarrow> error + int" where
  "int_div a b =
     (if b = 0 then Inl DivisionByZero
      else Inr (if (a < 0) = (b < 0) then \<bar>a\<bar> div \<bar>b\<bar> else - (\<bar>a\<bar> div \<bar>b\<bar>)))"

subsection \<open>Construction and loading\<close>

text \<open>
  \<open>static_cast<data_size_t>(num_data_ * estimate_element_per_row_ * 1.5)\<close>, the number
  of values the constructor and \<open>CopySubset\<close> make room for.
\<close>

definition estimate_num_data :: "rounding \<Rightarrow> data_size_t \<Rightarrow> double \<Rightarrow> error + data_size_t" where
  "estimate_num_data rnd n estimate =
     to_data_size (double_mul rnd (double_mul rnd (Finite (real_of_int n)) estimate) (Finite (3 / 2)))"

text \<open>
  \<open>v.reserve(n)\<close> changes the capacity of \<open>v\<close> and not its contents. Its argument is
  converted to an unsigned size: a negative \<open>n\<close> becomes a size no vector can have.
\<close>

definition reserve :: "int \<Rightarrow> error + unit" where
  "reserve n = (if n < 0 then Inl LengthError else Inr ())"

text \<open>
  The constructor. \<open>num_threads\<close> is what \<open>omp_get_num_threads()\<close> answers, at least 1.
\<close>

definition MultiValSparseBin_ctor ::
  "rounding \<Rightarrow> int \<Rightarrow> data_size_t \<Rightarrow> int \<Rightarrow> double \<Rightarrow> error + 'v MultiValSparseBin" where
  "MultiValSparseBin_ctor rnd num_threads n nb estimate =
     and_then (int_add n 1) (\<lambda>n1.
     if n1 < 0 then Inl LengthError
     else
       and_then (estimate_num_data rnd n estimate) (\<lambda>e.
       and_then
         (if num_threads > 1 then
            for_range 0 (num_threads - 1) (\<lambda>i u. and_then (int_div e num_threads) reserve) ()
          else Inr ())
         (\<lambda>u.
       and_then (and_then (int_div e num_threads) reserve) (\<lambda>u.
         Inr \<lparr> num_data = n, num_bin = nb, estimate_element_per_row = estimate,
               data = [], row_ptr = replicate (nat n1) 0,
               t_data = (if num_threads > 1 then replicate (nat (num_threads - 1)) [] else []) \<rparr>))))"

definition PushOneRow ::
  "'a::len word MultiValSparseBin \<Rightarrow> int \<Rightarrow> data_size_t \<Rightarrow> 32 word list \<Rightarrow> int
     \<Rightarrow> error + 'a word MultiValSparseBin" where
  "PushOneRow b tid idx values sz =
     and_then (upd_chk (row_ptr b) (idx + 1) sz) (\<lambda>rp.
       if tid = 0 then
         for_range 0 sz (\<lambda>i b'.
           and_then (nth_chk values i) (\<lambda>v.
             Inr (b'\<lparr>data := data b' @ [ucast v]\<rparr>))) (b\<lparr>row_ptr := rp\<rparr>)
       else
         for_range 0 sz (\<lambda>i b'.
           and_then (nth_chk (t_data b') (tid - 1)) (\<lambda>buf.
           and_then (nth_chk values i) (\<lambda>v.
             Inr (b'\<lparr>t_data := (t_data b')[nat (tid - 1) := buf @ [ucast v]]\<rparr>)))) (b\<lparr>row_ptr := rp\<rparr>))"

text \<open>
  \<open>MoveData<use_ext_size>(sizes)\<close>. The copies of the last loop run in parallel in the
  program; they write disjoint ranges of \<open>data_\<close>, so the model runs them in order.
\<close>

definition MoveData ::
  "bool \<Rightarrow> nat list \<Rightarrow> 'a::len word MultiValSparseBin \<Rightarrow> error + 'a word MultiValSparseBin" where
  "MoveData use_ext_size sizes b =
     and_then
       (for_range 0 (num_data b) (\<lambda>i rp.
          and_then (nth_chk rp (i + 1)) (\<lambda>x.
          and_then (nth_chk rp i) (\<lambda>y.
          and_then (int_add x y) (\<lambda>z. upd_chk rp (i + 1) z)))) (row_ptr b))
       (\<lambda>rp.
          if length (t_data b) > 0 then
            and_then (if use_ext_size then nth_chk sizes 0 else Inr (length (data b))) (\<lambda>o0.
            and_then
              (for_range 0 (int (length (t_data b)) - 1) (\<lambda>tid offsets.
                 and_then (if use_ext_size then nth_chk sizes (tid + 1)
                           else and_then (nth_chk (t_data b) tid) (\<lambda>buf. Inr (length buf)))
                   (\<lambda>n. Inr (offsets @ [last offsets + n]))) [o0])
              (\<lambda>offsets.
            and_then (nth_chk rp (num_data b)) (\<lambda>total.
            if total < 0 then Inl LengthError
            else
              for_range 0 (int (length (t_data b))) (\<lambda>tid b'.
                and_then (nth_chk (t_data b') tid) (\<lambda>buf.
                and_then (if use_ext_size then nth_chk sizes (tid + 1) else Inr (length buf)) (\<lambda>cnt.
                and_then (nth_chk offsets tid) (\<lambda>off.
                and_then (copy_n buf cnt (data b') off) (\<lambda>d.
                  Inr (b'\<lparr>data := d\<rparr>))))))
                (b\<lparr>row_ptr := rp, data := resize_vec (data b) (nat total) 0\<rparr>))))
          else Inr (b\<lparr>row_ptr := rp\<rparr>))"

definition FinishLoad ::
  "rounding \<Rightarrow> 'a::len word MultiValSparseBin \<Rightarrow> error + 'a word MultiValSparseBin" where
  "FinishLoad rnd b =
     and_then (MoveData False [] b) (\<lambda>b1.
     and_then (nth_chk (row_ptr b1) (num_data b1)) (\<lambda>total.
       Inr (b1\<lparr>t_data := [],
               estimate_element_per_row :=
                 double_div rnd (real_of_int total) (real_of_int (num_data b1))\<rparr>)))"

definition ReSize :: "'v MultiValSparseBin \<Rightarrow> data_size_t \<Rightarrow> 'v MultiValSparseBin" where
  "ReSize b n = (if num_data b \<noteq> n then b\<lparr>num_data := n\<rparr> else b)"

text \<open>
  \<open>ReSizeForSubFeature(num_bin, num_features)\<close> fills every buffer up to its capacity
  with zeros when \<open>data_\<close> is empty. What \<open>capacity()\<close> answers is decided by the
  allocations before the call; the model takes it as the parameters \<open>data_capacity\<close>
  for \<open>data_\<close> and \<open>t_capacity i\<close> for \<open>t_data_[i]\<close>.
\<close>

definition ReSizeForSubFeature ::
  "'a::len word MultiValSparseBin \<Rightarrow> int \<Rightarrow> nat \<Rightarrow> (nat \<Rightarrow> nat) \<Rightarrow> 'a word MultiValSparseBin" where
  "ReSizeForSubFeature b nb data_capacity t_capacity =
     (let b1 = b\<lparr>num_bin := nb\<rparr>
      in if data b1 = [] then
           b1\<lparr>data := resize_vec (data b1) data_capacity 0,
              t_data := map (\<lambda>i. resize_vec (t_data b1 ! i) (t_capacity i) 0)
                          [0..<length (t_data b1)]\<rparr>
         else b1)"

text \<open>
  \<open>CreateLike(num_bin, num_features, fraction)\<close> constructs a structure with the hint
  \<open>estimate_element_per_row_ * fraction\<close> and resizes its buffers to their capacity. The
  constructor has reserved \<open>estimate_num_data / num_threads\<close> places in each of them; a
  new vector with \<open>n\<close> places reserved has a capacity of at least \<open>n\<close>, and
  \<open>capacity_of n\<close> is the capacity it has.
\<close>

definition CreateLike ::
  "rounding \<Rightarrow> (nat \<Rightarrow> nat) \<Rightarrow> int \<Rightarrow> 'a::len word MultiValSparseBin \<Rightarrow> int \<Rightarrow> int \<Rightarrow> double
     \<Rightarrow> error + 'a word MultiValSparseBin" where
  "CreateLike rnd capacity_of num_threads b nb num_features fraction =
     (let estimate = double_mul rnd (estimate_element_per_row b) fraction in
      and_then (MultiValSparseBin_ctor rnd num_threads (num_data b) nb estimate) (\<lambda>ret.
      and_then (estimate_num_data rnd (num_data b) estimate) (\<lambda>e.
      and_then (int_div e num_threads) (\<lambda>k.
        Inr (ReSizeForSubFeature ret nb (capacity_of (nat k)) (\<lambda>i. capacity_of (nat k)))))))"

text \<open>\<open>Clone\<close>: the copy constructor copies every member but \<open>t_data_\<close>.\<close>

definition Clone :: "'v MultiValSparseBin \<Rightarrow> 'v MultiValSparseBin" where
  "Clone b = b\<lparr>t_data := []\<rparr>"

subsection \<open>Histogram construction\<close>

text \<open>
  The macro \<open>ACC_GH(hist, i, g, h)\<close>, with the two additions \<open>hist[ti] += g\<close> and
  \<open>hist[ti + 1] += h\<close> taken by \<open>add\<close>. Its arguments \<open>g\<close> and \<open>h\<close> are expressions
  (\<open>gradients[idx]\<close>, \<open>hessians[idx]\<close> or \<open>1.0f\<close>), read where the macro uses them. The
  index \<open>static_cast<int>(i) << 1\<close> is computed in the 32 bits of an \<open>int\<close>: twice the
  bin for bins below \<open>2^30\<close>, a negative number or a wrapped one from there on.
\<close>

definition ACC_GH ::
  "('h \<Rightarrow> 's \<Rightarrow> 'h) \<Rightarrow> 'h list \<Rightarrow> 'a::len word \<Rightarrow> error + 's \<Rightarrow> error + 's \<Rightarrow> error + 'h list" where
  "ACC_GH add hist i g h =
     (let ti = sint (push_bit 1 (ucast i :: 32 word)) in
      and_then g (\<lambda>gv.
      and_then (nth_chk hist ti) (\<lambda>x.
      and_then (upd_chk hist ti (add x gv)) (\<lambda>hist1.
      and_then h (\<lambda>hv.
      and_then (nth_chk hist1 (ti + 1)) (\<lambda>y.
        upd_chk hist1 (ti + 1) (add y hv)))))))"

text \<open>The loop over one row's slice \<open>[RowPtr(idx), RowPtr(idx + 1))\<close> of \<open>data_\<close>.\<close>

definition hist_row ::
  "('h \<Rightarrow> 's \<Rightarrow> 'h) \<Rightarrow> 'a::len word MultiValSparseBin \<Rightarrow> bool \<Rightarrow> 's::one list \<Rightarrow> 's list
     \<Rightarrow> data_size_t \<Rightarrow> 'h list \<Rightarrow> error + 'h list" where
  "hist_row add b use_hessians gradients hessians idx out =
     and_then (RowPtr b idx) (\<lambda>j_start.
     and_then (RowPtr b (idx + 1)) (\<lambda>j_end.
       for_range j_start j_end (\<lambda>j out'.
         and_then (nth_chk (data b) j) (\<lambda>bin.
           if use_hessians then ACC_GH add out' bin (nth_chk gradients idx) (nth_chk hessians idx)
           else ACC_GH add out' bin (nth_chk gradients idx) (Inr 1))) out))"

text \<open>
  \<open>PREFETCH_T0\<close> changes nothing, but its arguments are computed: the first loop reads
  \<open>data_indices[i + pf_offset]\<close> and \<open>row_ptr_[pf_idx]\<close>.
\<close>

definition ConstructHistogramInner ::
  "('h \<Rightarrow> 's \<Rightarrow> 'h) \<Rightarrow> 'a::len word MultiValSparseBin \<Rightarrow> bool \<Rightarrow> bool \<Rightarrow> bool
     \<Rightarrow> data_size_t list \<Rightarrow> data_size_t \<Rightarrow> data_size_t \<Rightarrow> 's::one list \<Rightarrow> 's list \<Rightarrow> 'h list
     \<Rightarrow> error + 'h list" where
  "ConstructHistogramInner add b use_indices use_prefetch use_hessians data_indices start end'
       gradients hessians out =
     and_then
       (if use_prefetch then
          (let pf_offset = 32 div (int LENGTH('a) div 8);
               pf_end = end' - pf_offset
           in for_loop start pf_end (\<lambda>i out'.
                and_then (if use_indices then nth_chk data_indices i else Inr i) (\<lambda>idx.
                and_then (if use_indices then nth_chk data_indices (i + pf_offset)
                          else Inr (i + pf_offset)) (\<lambda>pf_idx.
                and_then (nth_chk (row_ptr b) pf_idx) (\<lambda>_.
                  hist_row add b use_hessians gradients hessians idx out')))) out)
        else Inr (start, out))
       (\<lambda>(i, out1).
          for_range i end' (\<lambda>i out'.
            and_then (if use_indices then nth_chk data_indices i else Inr i) (\<lambda>idx.
              hist_row add b use_hessians gradients hessians idx out')) out1)"

text \<open>The four overloads of \<open>ConstructHistogram\<close>; a null pointer is the empty list.\<close>

definition ConstructHistogram_indices_hessians ::
  "('h \<Rightarrow> 's \<Rightarrow> 'h) \<Rightarrow> 'a::len word MultiValSparseBin \<Rightarrow> data_size_t list \<Rightarrow> data_size_t
     \<Rightarrow> data_size_t \<Rightarrow> 's::one list \<Rightarrow> 's list \<Rightarrow> 'h list \<Rightarrow> error + 'h list" where
  "ConstructHistogram_indices_hessians add b data_indices start end' gradients hessians out =
     ConstructHistogramInner add b True True True data_indices start end' gradients hessians out"

definition ConstructHistogram_hessians ::
  "('h \<Rightarrow> 's \<Rightarrow> 'h) \<Rightarrow> 'a::len word MultiValSparseBin \<Rightarrow> data_size_t \<Rightarrow> data_size_t
     \<Rightarrow> 's::one list \<Rightarrow> 's list \<Rightarrow> 'h list \<Rightarrow> error + 'h list" where
  "ConstructHistogram_hessians add b start end' gradients hessians out =
     ConstructHistogramInner add b False False True [] start end' gradients hessians out"

definition ConstructHistogram_indices ::
  "('h \<Rightarrow> 's \<Rightarrow> 'h) \<Rightarrow> 'a::len word MultiValSparseBin \<Rightarrow> data_size_t list \<Rightarrow> data_size_t
     \<Rightarrow> data_size_t \<Rightarrow> 's::one list \<Rightarrow> 'h list \<Rightarrow> error + 'h list" where
  "ConstructHistogram_indices add b data_indices start end' gradients out =
     ConstructHistogramInner add b True True False data_indices start end' gradients [] out"

definition ConstructHistogram ::
  "('h \<Rightarrow> 's \<Rightarrow> 'h) \<Rightarrow> 'a::len word MultiValSparseBin \<Rightarrow> data_size_t \<Rightarrow> data_size_t
     \<Rightarrow> 's::one list \<Rightarrow> 'h list \<Rightarrow> error + 'h list" where
  "ConstructHistogram add b start end' gradients out =
     ConstructHistogramInner add b False False False [] start end' gradients [] out"

subsection \<open>Copying rows and sub-features\<close>

text \<open>
  \<open>CopySubset\<close> reads its source through the pointer \<open>full_bin\<close>, which can point to
  another structure or to the structure \<open>CopySubset\<close> is called on. In that second case
  every read of the source sees what the call has written so far. A \<open>full_bin\<close> of
  another class, for which the \<open>dynamic_cast\<close> answers a null pointer, is no value of the
  model.
\<close>

datatype 'v bin_ref = This | Other "'v MultiValSparseBin"

definition deref :: "'v bin_ref \<Rightarrow> 'v MultiValSparseBin \<Rightarrow> 'v MultiValSparseBin" where
  "deref full_bin self = (case full_bin of This \<Rightarrow> self | Other b \<Rightarrow> b)"

definition CopySubset ::
  "rounding \<Rightarrow> 'v MultiValSparseBin \<Rightarrow> 'v bin_ref \<Rightarrow> data_size_t list \<Rightarrow> data_size_t
     \<Rightarrow> error + 'v MultiValSparseBin" where
  "CopySubset rnd b full_bin used_indices num_used_indices =
     and_then (int_add (num_data b) 1) (\<lambda>n1.
     if n1 < 0 then Inl LengthError
     else
       and_then (estimate_num_data rnd (num_data b) (estimate_element_per_row b)) (\<lambda>e.
       and_then (reserve e) (\<lambda>u.
         for_range 0 num_used_indices (\<lambda>i b'.
           and_then (nth_chk used_indices i) (\<lambda>u.
           and_then (nth_chk (row_ptr (deref full_bin b')) u) (\<lambda>j0.
           and_then (int_add u 1) (\<lambda>u1.
           and_then (nth_chk (row_ptr (deref full_bin b')) u1) (\<lambda>j1.
           and_then
             (for_range j0 j1 (\<lambda>j d.
                and_then (nth_chk (data (deref full_bin (b'\<lparr>data := d\<rparr>))) j) (\<lambda>v. Inr (d @ [v])))
                (data b'))
             (\<lambda>d.
           and_then (nth_chk (row_ptr b') i) (\<lambda>p.
           and_then (int_add p j1) (\<lambda>q.
           and_then (int_sub q j0) (\<lambda>r.
           and_then (upd_chk (row_ptr b') (i + 1) r) (\<lambda>rp.
             Inr (b'\<lparr>data := d, row_ptr := rp\<rparr>)))))))))))
           (b\<lparr>row_ptr := resize_vec (row_ptr b) (nat n1) 0, data := []\<rparr>))))"

text \<open>
  \<open>while (val >= upper[k]) ++k\<close>, the cursor of \<open>CopySubFeature\<close>. Nothing stops it at
  the end of \<open>upper\<close>: reading past the end is an error of the model.
\<close>

function skip_upper :: "32 word list \<Rightarrow> 32 word \<Rightarrow> int \<Rightarrow> error + int" where
  "skip_upper upper val k =
     (if 0 \<le> k \<and> k < int (length upper)
      then (if val \<ge> upper ! nat k then skip_upper upper val (k + 1) else Inr k)
      else Inl OutOfBounds)"
  by pat_completeness auto
termination
  by (relation "measure (\<lambda>(upper, val, k). nat (int (length upper) - k))") auto

declare skip_upper.simps [simp del]

text \<open>
  The destination buffer of block \<open>tid\<close>: \<open>data_\<close> for block 0, \<open>t_data_[tid - 1]\<close> for
  the others.
\<close>

definition block_buf :: "'v MultiValSparseBin \<Rightarrow> int \<Rightarrow> error + 'v list" where
  "block_buf b tid = (if tid = 0 then Inr (data b) else nth_chk (t_data b) (tid - 1))"

definition set_block_buf :: "'v MultiValSparseBin \<Rightarrow> int \<Rightarrow> 'v list \<Rightarrow> error + 'v MultiValSparseBin" where
  "set_block_buf b tid buf =
     (if tid = 0 then Inr (b\<lparr>data := buf\<rparr>)
      else and_then (upd_chk (t_data b) (tid - 1) buf) (\<lambda>t. Inr (b\<lparr>t_data := t\<rparr>)))"

text \<open>
  One row of \<open>CopySubFeature\<close>: the values of source row \<open>i\<close> are filtered into
  \<open>buf\<close> from position \<open>bid\<close> on. The state of the inner loop is
  \<open>(buf, bid, k, cur_cnt)\<close>. The difference \<open>val - delta[k]\<close> is taken in 32 bits
  and cut to \<open>VAL_T\<close> by the store.
\<close>

definition sub_feature_row ::
  "'a::len word MultiValSparseBin \<Rightarrow> 32 word list \<Rightarrow> 32 word list \<Rightarrow> 32 word list
     \<Rightarrow> data_size_t \<Rightarrow> 'a word list \<times> nat
     \<Rightarrow> error + ('a word list \<times> nat) \<times> int" where
  "sub_feature_row other lower upper delta i st =
     and_then (RowPtr other i) (\<lambda>j_start.
     and_then (RowPtr other (i + 1)) (\<lambda>j_end.
     and_then
       (for_range j_start j_end (\<lambda>j (buf, bid, k, cur_cnt).
          and_then (nth_chk (data other) j) (\<lambda>val.
          and_then (skip_upper upper (ucast val) k) (\<lambda>k'.
          and_then (nth_chk lower k') (\<lambda>lo.
            if ucast val \<ge> lo then
              and_then (nth_chk delta k') (\<lambda>dl.
              and_then (upd_chk buf (int bid) (ucast ((ucast val :: 32 word) - dl))) (\<lambda>buf'.
                Inr (buf', bid + 1, k', cur_cnt + 1)))
            else Inr (buf, bid, k', cur_cnt)))))
          (fst st, snd st, 0, 0))
       (\<lambda>(buf, bid, k, cur_cnt). Inr ((buf, bid), cur_cnt))))"

text \<open>
  \<open>CopySubFeature\<close>. The blocks run in parallel in the program, each on its own
  buffer, its own rows of \<open>row_ptr_\<close> and its own entry of \<open>sizes\<close>; the model runs
  them in order. \<open>num_threads\<close> is what \<open>omp_get_num_threads()\<close> answers.
\<close>

definition CopySubFeature ::
  "int \<Rightarrow> 'a::len word MultiValSparseBin \<Rightarrow> 'a word MultiValSparseBin
     \<Rightarrow> 32 word list \<Rightarrow> 32 word list \<Rightarrow> 32 word list
     \<Rightarrow> error + 'a word MultiValSparseBin" where
  "CopySubFeature num_threads b other lower upper delta =
     (let min_block_size = 1024 in
      and_then (int_div (num_data b) min_block_size) (\<lambda>q.
      let n_block = min num_threads q in
      and_then (int_add (num_data b) n_block) (\<lambda>s.
      and_then (int_sub s 1) (\<lambda>s1.
      and_then (int_div s1 n_block) (\<lambda>block_size.
      and_then
        (for_range 0 n_block (\<lambda>tid (b', sizes).
           and_then (int_mul tid block_size) (\<lambda>start.
           and_then (int_add start block_size) (\<lambda>stop.
           let end' = min (num_data b) stop in
           and_then (block_buf b' tid) (\<lambda>buf.
           and_then
             (for_range start end' (\<lambda>i (st, rp).
                and_then (sub_feature_row other lower upper delta i st) (\<lambda>(st', cur_cnt).
                and_then (upd_chk rp (i + 1) cur_cnt) (\<lambda>rp'. Inr (st', rp'))))
                ((buf, 0), row_ptr b'))
             (\<lambda>((buf', bid), rp').
           and_then (set_block_buf (b'\<lparr>row_ptr := rp'\<rparr>) tid buf') (\<lambda>b''.
           and_then (upd_chk sizes tid bid) (\<lambda>sizes'. Inr (b'', sizes'))))))))
           (b, replicate (length (t_data b) + 1) 0))
        (\<lambda>(b1, sizes1). MoveData True sizes1 b1))))))"

subsection \<open>What the operations are expected to compute\<close>

text \<open>
  A finalized structure: \<open>row_ptr_\<close> has \<open>num_data_ + 1\<close> offsets, starting at 0, never
  decreasing and ending at the size of \<open>data_\<close>.
\<close>

definition finalized :: "'v MultiValSparseBin \<Rightarrow> bool" where
  "finalized b \<longleftrightarrow>
     0 \<le> num_data b \<and> length (row_ptr b) = nat (num_data b) + 1 \<and> row_ptr b ! 0 = 0 \<and>
     sorted (row_ptr b) \<and> last (row_ptr b) = int (length (data b))"

text \<open>
  The hint for which the constructor and \<open>CopySubset\<close> can make room: the number of
  values \<open>num_data_ * estimate_element_per_row_ * 1.5\<close> is in the range of
  \<open>data_size_t\<close> and not negative.
\<close>

definition reservation_ok :: "rounding \<Rightarrow> data_size_t \<Rightarrow> double \<Rightarrow> bool" where
  "reservation_ok rnd n estimate \<longleftrightarrow>
     (case estimate_num_data rnd n estimate of Inl err \<Rightarrow> False | Inr e \<Rightarrow> 0 \<le> e)"

text \<open>
  The fields \<open>num_data_\<close> and \<open>row_ptr_\<close> hold values of \<open>data_size_t\<close>: they are in
  its range.
\<close>

definition representable :: "'v MultiValSparseBin \<Rightarrow> bool" where
  "representable b \<longleftrightarrow> in_int (num_data b) \<and> (\<forall>x\<in>set (row_ptr b). in_int x)"

text \<open>The values of row \<open>r\<close>: the slice of \<open>data_\<close> between its two offsets.\<close>

definition row_values :: "'v MultiValSparseBin \<Rightarrow> data_size_t \<Rightarrow> 'v list" where
  "row_values b r =
     (let j0 = row_ptr b ! nat r; j1 = row_ptr b ! nat (r + 1)
      in take (nat (j1 - j0)) (drop (nat j0) (data b)))"

text \<open>The rows a call of \<open>ConstructHistogram\<close> works on, in the order it takes them.\<close>

definition active_rows :: "bool \<Rightarrow> data_size_t list \<Rightarrow> data_size_t \<Rightarrow> data_size_t \<Rightarrow> data_size_t list" where
  "active_rows use_indices data_indices start end' =
     map (\<lambda>i. if use_indices then data_indices ! nat i else i) [start..end' - 1]"

definition hessian_of :: "bool \<Rightarrow> 's::one list \<Rightarrow> data_size_t \<Rightarrow> 's" where
  "hessian_of use_hessians hessians r = (if use_hessians then hessians ! nat r else 1)"

text \<open>
  What one stored value \<open>v\<close> of a row adds to entry \<open>e\<close> of the histogram: the
  gradient at \<open>2v\<close>, the hessian at \<open>2v + 1\<close>, nothing elsewhere. \<open>contributions\<close> is
  the list of what a call adds to entry \<open>e\<close>, in the order of the program: row after
  row, and inside a row value after value.
\<close>

definition entry_terms :: "nat \<Rightarrow> 'a::len word \<Rightarrow> 's \<Rightarrow> 's \<Rightarrow> 's list" where
  "entry_terms e v g h =
     (if e = 2 * unat v then [g] else if e = 2 * unat v + 1 then [h] else [])"

definition contributions ::
  "'a::len word MultiValSparseBin \<Rightarrow> data_size_t list \<Rightarrow> 's::one list \<Rightarrow> bool \<Rightarrow> 's list
     \<Rightarrow> nat \<Rightarrow> 's list" where
  "contributions b rows gradients use_hessians hessians e =
     concat (map (\<lambda>r. concat (map (\<lambda>v. entry_terms e v (gradients ! nat r)
                                          (hessian_of use_hessians hessians r))
                              (row_values b r))) rows)"

text \<open>The same over exact reals, as a sum.\<close>

definition contribution :: "nat \<Rightarrow> 'a::len word \<Rightarrow> real \<Rightarrow> real \<Rightarrow> real" where
  "contribution e v g h =
     (if e = 2 * unat v then g else 0) + (if e = 2 * unat v + 1 then h else 0)"

definition accumulated ::
  "'a::len word MultiValSparseBin \<Rightarrow> data_size_t list \<Rightarrow> real list \<Rightarrow> bool \<Rightarrow> real list
     \<Rightarrow> nat \<Rightarrow> real" where
  "accumulated b rows gradients use_hessians hessians e =
     (\<Sum>r\<leftarrow>rows. \<Sum>v\<leftarrow>row_values b r.
        contribution e v (gradients ! nat r) (hessian_of use_hessians hessians r))"

text \<open>\<open>ACC_GH\<close> on a histogram that has both entries of the bin.\<close>

definition add_gh :: "('h \<Rightarrow> 's \<Rightarrow> 'h) \<Rightarrow> 's \<Rightarrow> 's \<Rightarrow> 'a::len word \<Rightarrow> 'h list \<Rightarrow> 'h list" where
  "add_gh add g h v out =
     (let ti = 2 * unat v; out1 = out[ti := add (out ! ti) g]
      in out1[ti + 1 := add (out1 ! (ti + 1)) h])"

text \<open>
  The calls of \<open>ConstructHistogram\<close> that stay inside every array, on bins whose
  doubled index fits an \<open>int\<close>.
\<close>

definition histogram_call_ok ::
  "'a::len word MultiValSparseBin \<Rightarrow> bool \<Rightarrow> bool \<Rightarrow> data_size_t list \<Rightarrow> data_size_t \<Rightarrow> data_size_t
     \<Rightarrow> 's list \<Rightarrow> 's list \<Rightarrow> 'h list \<Rightarrow> bool" where
  "histogram_call_ok b use_indices use_hessians data_indices start end' gradients hessians out \<longleftrightarrow>
     finalized b \<and>
     (\<forall>v\<in>set (data b). 2 * unat v + 1 < length out) \<and>
     (\<forall>v\<in>set (data b). unat v < 2 ^ 30) \<and>
     (use_indices \<longrightarrow> start < end' \<longrightarrow> 0 \<le> start \<and> end' \<le> int (length data_indices)) \<and>
     (\<forall>r\<in>set (active_rows use_indices data_indices start end'). 0 \<le> r \<and> r < num_data b) \<and>
     num_data b \<le> int (length gradients) \<and>
     (use_hessians \<longrightarrow> num_data b \<le> int (length hessians))"

text \<open>
  A run of \<open>PushOneRow\<close> calls, each given as \<open>(tid, idx, values, size)\<close>. The calls of
  different threads write different buffers and different entries of \<open>row_ptr_\<close>, so
  any interleaving of them is one of these sequences.
\<close>

type_synonym push_call = "int \<times> data_size_t \<times> 32 word list \<times> int"

definition push_row :: "push_call \<Rightarrow> data_size_t" where
  "push_row c = fst (snd c)"

definition push_size :: "push_call \<Rightarrow> int" where
  "push_size c = snd (snd (snd c))"

fun push_rows ::
  "'a::len word MultiValSparseBin \<Rightarrow> push_call list \<Rightarrow> error + 'a word MultiValSparseBin" where
  "push_rows b [] = Inr b"
| "push_rows b (c # calls) =
     and_then (PushOneRow b (fst c) (fst (snd c)) (fst (snd (snd c))) (snd (snd (snd c))))
       (\<lambda>b'. push_rows b' calls)"

text \<open>The calls that name a row and a buffer of the structure and a count within \<open>values\<close>.\<close>

definition push_ok :: "int \<Rightarrow> data_size_t \<Rightarrow> push_call \<Rightarrow> bool" where
  "push_ok num_threads n c \<longleftrightarrow>
     0 \<le> fst c \<and> fst c < num_threads \<and> 0 \<le> push_row c \<and> push_row c < n \<and>
     0 \<le> push_size c \<and> push_size c \<le> int (length (fst (snd (snd c))))"

text \<open>The number of values held in \<open>data_\<close> and the thread buffers together.\<close>

definition stored :: "'v MultiValSparseBin \<Rightarrow> nat" where
  "stored b = length (data b) + sum_list (map length (t_data b))"










subsection \<open>Examples\<close>

text \<open>
  Three rows with the bins \<open>{3, 7}\<close>, \<open>{}\<close> and \<open>{1}\<close> in a space of 8 bins, stored in
  bytes, as they are after loading.
\<close>

definition three_rows :: "8 word MultiValSparseBin" where
  "three_rows =
     \<lparr> num_data = 3, num_bin = 8, estimate_element_per_row = Finite 1,
       data = [3, 7, 1], row_ptr = [0, 2, 2, 3], t_data = [] \<rparr>"

text \<open>
  A structure for three rows as the constructor leaves it on one thread, with the
  density hint 5.
\<close>

definition empty_three :: "8 word MultiValSparseBin" where
  "empty_three =
     \<lparr> num_data = 3, num_bin = 8, estimate_element_per_row = Finite 5,
       data = [], row_ptr = [0, 0, 0, 0], t_data = [] \<rparr>"

text \<open>
  The three example rows followed by 1021 empty rows, and what \<open>CreateLike\<close> with the
  fraction 1 makes of them on one thread for a space of 4 bins: four zero-filled places
  in \<open>data_\<close>.
\<close>

definition rows_1024 :: "8 word MultiValSparseBin" where
  "rows_1024 =
     \<lparr> num_data = 1024, num_bin = 8, estimate_element_per_row = Finite (3 / 1024),
       data = [3, 7, 1], row_ptr = [0, 2, 2] @ replicate 1022 3, t_data = [] \<rparr>"

definition narrow_1024 :: "8 word MultiValSparseBin" where
  "narrow_1024 =
     \<lparr> num_data = 1024, num_bin = 4, estimate_element_per_row = Finite (3 / 1024),
       data = [0, 0, 0, 0], row_ptr = replicate 1025 0, t_data = [] \<rparr>"




section \<open>Properties\<close>

subsection \<open>Errors and loops\<close>

lemma and_then_Inr [simp]: "and_then (Inr x) f = f x"
  by (simp add: and_then_def)

lemma and_then_Inl [simp]: "and_then (Inl e) f = Inl e"
  by (simp add: and_then_def)

lemma and_then_eq_Inr:
  "and_then m f = Inr y \<longleftrightarrow> (\<exists>x. m = Inr x \<and> f x = Inr y)"
  by (cases m) simp_all

lemma and_then_assoc: "and_then (and_then m f) g = and_then m (\<lambda>x. and_then (f x) g)"
  by (cases m) simp_all

lemma nth_chk_Inr: "0 \<le> i \<Longrightarrow> i < int (length xs) \<Longrightarrow> nth_chk xs i = Inr (xs ! nat i)"
  by (simp add: nth_chk_def)

lemma upd_chk_Inr: "0 \<le> i \<Longrightarrow> i < int (length xs) \<Longrightarrow> upd_chk xs i v = Inr (xs[nat i := v])"
  by (simp add: upd_chk_def)

lemma for_loop_stop: "\<not> i < n \<Longrightarrow> for_loop i n body s = Inr (i, s)"
  by (simp add: for_loop.simps)

lemma for_loop_step:
  "i < n \<Longrightarrow> for_loop i n body s = and_then (body i s) (for_loop (i + 1) n body)"
  by (subst for_loop.simps) (simp add: and_then_def)

lemma for_range_stop: "\<not> i < n \<Longrightarrow> for_range i n body s = Inr s"
  by (simp add: for_range_def for_loop_stop)

lemma for_range_step:
  "i < n \<Longrightarrow> for_range i n body s = and_then (body i s) (for_range (i + 1) n body)"
  by (cases "body i s") (simp_all add: for_range_def for_loop_step)

text \<open>A loop whose body always succeeds on the states of an invariant is a fold.\<close>

lemma for_loop_fold:
  assumes "I s"
    and "\<And>j t. i \<le> j \<Longrightarrow> j < n \<Longrightarrow> I t \<Longrightarrow> body j t = Inr (f j t) \<and> I (f j t)"
  shows "for_loop i n body s = Inr (max i n, fold f [i..n - 1] s) \<and> I (fold f [i..n - 1] s)"
  using assms
proof (induction i n body s rule: for_loop.induct)
  case (1 i n body s)
  show ?case
  proof (cases "i < n")
    case False
    then show ?thesis using "1.prems"(1) by (simp add: for_loop_stop)
  next
    case True
    have b: "body i s = Inr (f i s)" and I': "I (f i s)"
      using "1.prems"(2)[of i s] True "1.prems"(1) by auto
    have ih: "for_loop (i + 1) n body (f i s) = Inr (max (i + 1) n, fold f [i + 1..n - 1] (f i s))
         \<and> I (fold f [i + 1..n - 1] (f i s))"
      by (rule "1.IH"[OF True b I']) (use "1.prems"(2) in auto)
    have u: "[i..n - 1] = i # [i + 1..n - 1]"
      using True by (simp add: upto_rec1)
    show ?thesis using ih True b by (simp add: for_loop_step u max_def)
  qed
qed

lemma for_range_fold:
  assumes "I s"
    and "\<And>j t. i \<le> j \<Longrightarrow> j < n \<Longrightarrow> I t \<Longrightarrow> body j t = Inr (f j t) \<and> I (f j t)"
  shows "for_range i n body s = Inr (fold f [i..n - 1] s)"
  using for_loop_fold[of I s i n body f, OF assms] by (simp add: for_range_def)

lemma for_range_split:
  "i \<le> m \<Longrightarrow> m \<le> n \<Longrightarrow>
     for_range i n body s = and_then (for_range i m body s) (for_range m n body)"
proof (induction i m body s rule: for_loop.induct)
  case (1 i m body s)
  show ?case
  proof (cases "i < m")
    case False
    then show ?thesis using 1 by (simp add: for_range_stop)
  next
    case True
    show ?thesis
    proof (cases "body i s")
      case (Inl e)
      then show ?thesis using True 1 by (simp add: for_range_step)
    next
      case (Inr s')
      then show ?thesis using True "1.prems" "1.IH"[OF True Inr]
        by (simp add: for_range_step)
    qed
  qed
qed

subsection \<open>One row of the histogram\<close>

lemma uint_unat_word: "uint (v::'a::len word) = int (unat v)"
  by simp

lemma nth_chk_nat: "n < length xs \<Longrightarrow> nth_chk xs (int n) = Inr (xs ! n)"
  by (simp add: nth_chk_def)

lemma upd_chk_nat: "n < length xs \<Longrightarrow> upd_chk xs (int n) v = Inr (xs[n := v])"
  by (simp add: upd_chk_def)

lemma shift_left_one_small:
  fixes v :: "'a::len word"
  assumes "unat v < 2 ^ 30"
  shows "sint (push_bit 1 (ucast v :: 32 word)) = int (2 * unat v)"
proof -
  have "int (unat v) < int (2 ^ 30)" using assms by (simp only: of_nat_less_iff)
  then have v: "uint v < 2 ^ 30" by simp
  have v0: "0 \<le> uint v" by simp
  have "uint (ucast v :: 32 word) = take_bit 32 (uint v)"
    by (simp add: unsigned_ucast_eq)
  also have "\<dots> = uint v"
    using v v0 by (simp add: take_bit_int_eq_self)
  finally have u: "uint (ucast v :: 32 word) = uint v" .
  have "uint (push_bit 1 (ucast v :: 32 word)) = (uint v * 2) mod 2 ^ 32"
    by (simp add: push_bit_eq_mult uint_word_ariths u)
  also have "\<dots> = 2 * uint v" using v v0 by simp
  finally have p: "uint (push_bit 1 (ucast v :: 32 word)) = 2 * uint v" .
  have "sint (push_bit 1 (ucast v :: 32 word)) = signed_take_bit 31 (2 * uint v)"
    unfolding sint_uint p by simp
  also have "\<dots> = 2 * uint v"
  proof (rule signed_take_bit_int_eq_self)
    have n: "(2::int) ^ 31 = 2147483648" "(2::int) ^ 30 = 1073741824" by simp_all
    show "- (2 ^ 31) \<le> 2 * uint v" using v0 unfolding n by linarith
    show "2 * uint v < 2 ^ 31" using v unfolding n by linarith
  qed
  finally show ?thesis by simp
qed

lemma ACC_GH_Inr:
  assumes "2 * unat v + 1 < length out" and small: "unat v < 2 ^ 30"
  shows "ACC_GH add out v (Inr g) (Inr h) = Inr (add_gh add g h v out)"
proof -
  note a = shift_left_one_small[OF small]
  have b: "int (2 * unat v) + 1 = int (2 * unat v + 1)" by simp
  have c: "2 * unat v < length out" using assms(1) by simp
  show ?thesis
    unfolding ACC_GH_def Let_def a b add_gh_def
    using assms(1) c by (simp only: nth_chk_nat upd_chk_nat and_then_Inr length_list_update)
qed

lemma length_add_gh [simp]: "length (add_gh add g h v out) = length out"
  by (simp add: add_gh_def Let_def)

lemma add_gh_nth:
  assumes "2 * unat v + 1 < length out" "e < length out"
  shows "add_gh add g h v out ! e = foldl add (out ! e) (entry_terms e v g h)"
  using assms by (auto simp: add_gh_def Let_def entry_terms_def nth_list_update)

lemma fold_add_gh_length [simp]: "length (fold (add_gh add g h) vs out) = length out"
  by (induction vs arbitrary: out) simp_all

lemma fold_add_gh_nth:
  assumes "\<forall>v\<in>set vs. 2 * unat v + 1 < length out" "e < length out"
  shows "fold (add_gh add g h) vs out ! e =
     foldl add (out ! e) (concat (map (\<lambda>v. entry_terms e v g h) vs))"
  using assms
proof (induction vs arbitrary: out)
  case Nil
  then show ?case by simp
next
  case (Cons v vs)
  have "fold (add_gh add g h) vs (add_gh add g h v out) ! e
      = foldl add (add_gh add g h v out ! e) (concat (map (\<lambda>v. entry_terms e v g h) vs))"
    using Cons.prems by (intro Cons.IH) simp_all
  then show ?case using Cons.prems by (simp add: add_gh_nth)
qed

lemma map_nth_upto:
  assumes "0 \<le> j0" "j1 \<le> int (length xs)"
  shows "map (\<lambda>j. xs ! nat j) [j0..j1 - 1] = take (nat (j1 - j0)) (drop (nat j0) xs)"
proof (rule nth_equalityI)
  show "length (map (\<lambda>j. xs ! nat j) [j0..j1 - 1]) = length (take (nat (j1 - j0)) (drop (nat j0) xs))"
    using assms by auto
next
  fix i assume "i < length (map (\<lambda>j. xs ! nat j) [j0..j1 - 1])"
  then have i: "int i < j1 - j0" by auto
  then have "[j0..j1 - 1] ! i = j0 + int i" by (simp add: nth_upto)
  then show "map (\<lambda>j. xs ! nat j) [j0..j1 - 1] ! i = take (nat (j1 - j0)) (drop (nat j0) xs) ! i"
    using i assms by (simp add: nat_add_distrib)
qed

lemma finalized_offsets:
  assumes "finalized b" "0 \<le> r" "r < num_data b"
  shows "0 \<le> row_ptr b ! nat r" "row_ptr b ! nat r \<le> row_ptr b ! nat (r + 1)"
    "row_ptr b ! nat (r + 1) \<le> int (length (data b))"
    "r + 1 < int (length (row_ptr b))"
proof -
  have len: "length (row_ptr b) = nat (num_data b) + 1" and z: "row_ptr b ! 0 = 0"
    and s: "sorted (row_ptr b)" and l: "last (row_ptr b) = int (length (data b))"
    using assms(1) by (auto simp: finalized_def)
  have r1: "nat (r + 1) < length (row_ptr b)" using assms len by simp
  show "r + 1 < int (length (row_ptr b))" using assms len by simp
  have "row_ptr b ! 0 \<le> row_ptr b ! nat r"
    using s r1 assms by (intro sorted_nth_mono) simp_all
  then show "0 \<le> row_ptr b ! nat r" using z by simp
  show "row_ptr b ! nat r \<le> row_ptr b ! nat (r + 1)"
    using s r1 assms by (intro sorted_nth_mono) simp_all
  have "row_ptr b ! nat (r + 1) \<le> row_ptr b ! (length (row_ptr b) - 1)"
    using s r1 by (intro sorted_nth_mono) simp_all
  also have "\<dots> = last (row_ptr b)"
    using len by (subst last_conv_nth) auto
  finally show "row_ptr b ! nat (r + 1) \<le> int (length (data b))" using l by simp
qed

lemma set_row_values: "set (row_values b r) \<subseteq> set (data b)"
  by (auto simp: row_values_def Let_def dest: in_set_takeD in_set_dropD)

lemma hist_row_Inr:
  assumes fin: "finalized b" and r: "0 \<le> r" "r < num_data b"
    and bins: "\<forall>v\<in>set (data b). 2 * unat v + 1 < length out"
    and small: "\<forall>v\<in>set (data b). unat v < 2 ^ 30"
    and g: "num_data b \<le> int (length gradients)"
    and h: "use_hessians \<longrightarrow> num_data b \<le> int (length hessians)"
  shows "hist_row add b use_hessians gradients hessians r out =
     Inr (fold (add_gh add (gradients ! nat r) (hessian_of use_hessians hessians r)) (row_values b r) out)"
proof -
  let ?j0 = "row_ptr b ! nat r" and ?j1 = "row_ptr b ! nat (r + 1)"
  let ?g = "gradients ! nat r" and ?h = "hessian_of use_hessians hessians r"
  note o = finalized_offsets[OF fin r]
  have rp0: "RowPtr b r = Inr ?j0" using o r by (simp add: RowPtr_def nth_chk_Inr)
  have rp1: "RowPtr b (r + 1) = Inr ?j1" using o r by (simp add: RowPtr_def nth_chk_Inr)
  let ?body = "\<lambda>j out'. and_then (nth_chk (data b) j) (\<lambda>bin.
           if use_hessians then ACC_GH add out' bin (nth_chk gradients r) (nth_chk hessians r)
           else ACC_GH add out' bin (nth_chk gradients r) (Inr 1))"
  let ?f = "\<lambda>j. add_gh add ?g ?h (data b ! nat j)"
  have step: "?body j t = Inr (?f j t) \<and> length (?f j t) = length out"
    if "?j0 \<le> j" "j < ?j1" "length t = length out" for j t
  proof -
    have j: "0 \<le> j" "j < int (length (data b))" using that o by auto
    then have m: "data b ! nat j \<in> set (data b)" by simp
    then have "2 * unat (data b ! nat j) + 1 < length t" using bins that by simp
    moreover have "unat (data b ! nat j) < 2 ^ 30" using small m by (rule bspec)
    ultimately have acc: "ACC_GH add t (data b ! nat j) (Inr x) (Inr y) = Inr (add_gh add x y (data b ! nat j) t)" for x y
      by (rule ACC_GH_Inr)
    have gr: "nth_chk gradients r = Inr ?g" using r g by (simp add: nth_chk_Inr)
    have hs: "nth_chk hessians r = Inr (hessians ! nat r)" if use_hessians
      using r h that by (simp add: nth_chk_Inr)
    show ?thesis
      using j that(3) by (cases use_hessians) (simp_all add: nth_chk_Inr gr hs acc hessian_of_def)
  qed
  have "for_range ?j0 ?j1 ?body out = Inr (fold ?f [?j0..?j1 - 1] out)"
    by (rule for_range_fold[where I = "\<lambda>t. length t = length out"]) (use step in auto)
  also have "fold ?f [?j0..?j1 - 1] out = fold (add_gh add ?g ?h) (map (\<lambda>j. data b ! nat j) [?j0..?j1 - 1]) out"
    by (simp add: fold_map comp_def)
  also have "map (\<lambda>j. data b ! nat j) [?j0..?j1 - 1] = row_values b r"
    using o by (simp add: map_nth_upto row_values_def Let_def)
  finally show ?thesis by (simp add: hist_row_def rp0 rp1)
qed

subsection \<open>A whole call of the histogram construction\<close>

lemma pf_offset_nonneg: "0 \<le> 32 div (int LENGTH('a::len) div 8)"
  by (simp add: div_int_pos_iff)

lemma upto_two_parts:
  assumes "p \<le> n"
  shows "[i..p - 1] @ [max i p..n - 1] = [i..n - (1::int)]"
proof (cases "i \<le> p")
  case True
  have "[i..n - 1] = [i..p - 1] @ [p..n - 1]"
  proof (cases "p = n")
    case False
    then show ?thesis using True assms by (intro upto_split1) simp_all
  qed simp
  then show ?thesis using True by (simp add: max_def)
next
  case False
  then show ?thesis by (simp add: max_def)
qed

text \<open>The rows of a valid call, added one after the other.\<close>

lemma ConstructHistogramInner_fold:
  fixes b :: "'a::len word MultiValSparseBin" and add :: "'h \<Rightarrow> 's::one \<Rightarrow> 'h"
  assumes ok: "histogram_call_ok b use_indices use_hessians data_indices start end' gradients hessians out"
  shows "ConstructHistogramInner add b use_indices use_prefetch use_hessians data_indices start end'
           gradients hessians out =
         Inr (fold (\<lambda>r. fold (add_gh add (gradients ! nat r) (hessian_of use_hessians hessians r))
                          (row_values b r))
                (active_rows use_indices data_indices start end') out)"
proof -
  let ?sel = "\<lambda>i. if use_indices then data_indices ! nat i else i"
  let ?F = "\<lambda>r. fold (add_gh add (gradients ! nat r) (hessian_of use_hessians hessians r)) (row_values b r)"
  let ?idx = "\<lambda>i. if use_indices then nth_chk data_indices i else Inr i"
  let ?row = "\<lambda>i out'. and_then (?idx i) (\<lambda>idx. hist_row add b use_hessians gradients hessians idx out')"
  let ?pf = "32 div (int LENGTH('a) div 8)"
  let ?pf_end = "end' - ?pf"
  let ?pfrow = "\<lambda>i out'. and_then (?idx i) (\<lambda>idx.
                and_then (if use_indices then nth_chk data_indices (i + ?pf) else Inr (i + ?pf)) (\<lambda>pf_idx.
                and_then (nth_chk (row_ptr b) pf_idx) (\<lambda>_.
                  hist_row add b use_hessians gradients hessians idx out')))"
  let ?I = "\<lambda>t. length t = length out"
  have fin: "finalized b"
    and bins: "\<forall>v\<in>set (data b). 2 * unat v + 1 < length out"
    and small: "\<forall>v\<in>set (data b). unat v < 2 ^ 30"
    and ind: "use_indices \<Longrightarrow> start < end' \<Longrightarrow> 0 \<le> start \<and> end' \<le> int (length data_indices)"
    and rows: "\<forall>r\<in>set (active_rows use_indices data_indices start end'). 0 \<le> r \<and> r < num_data b"
    and g: "num_data b \<le> int (length gradients)"
    and h: "use_hessians \<longrightarrow> num_data b \<le> int (length hessians)"
    using ok by (auto simp: histogram_call_ok_def)
  have sel: "0 \<le> ?sel i \<and> ?sel i < num_data b" if "start \<le> i" "i < end'" for i
  proof -
    have "?sel i \<in> set (active_rows use_indices data_indices start end')"
      using that unfolding active_rows_def by (intro image_eqI[where x = i] | simp)+
    then show ?thesis using rows by blast
  qed
  have idx: "?idx i = Inr (?sel i)" if "start \<le> i" "i < end'" for i
    using that ind by (auto simp: nth_chk_Inr)
  have lenF: "length (?F r t) = length t" for r t by simp
  have row: "?row i t = Inr (?F (?sel i) t) \<and> ?I (?F (?sel i) t)"
    if "start \<le> i" "i < end'" "?I t" for i t
  proof -
    have "hist_row add b use_hessians gradients hessians (?sel i) t = Inr (?F (?sel i) t)"
      using sel[OF that(1,2)] bins that(3) by (intro hist_row_Inr[OF fin _ _ _ small g h]) simp_all
    then show ?thesis using idx[OF that(1,2)] that(3) by (simp)
  qed
  have pfrow: "?pfrow i t = ?row i t" if "start \<le> i" "i < ?pf_end" for i t
  proof -
    have p: "start \<le> i + ?pf" "i + ?pf < end'"
      using that pf_offset_nonneg[where 'a = 'a] by linarith+
    have i: "i < end'" using that pf_offset_nonneg[where 'a = 'a] by linarith
    have a: "(if use_indices then nth_chk data_indices (i + ?pf) else Inr (i + ?pf)) = Inr (?sel (i + ?pf))"
      using idx[OF p] .
    have "0 \<le> ?sel (i + ?pf) \<and> ?sel (i + ?pf) < int (length (row_ptr b))"
      using sel[OF p] fin by (auto simp: finalized_def)
    then have c: "nth_chk (row_ptr b) (?sel (i + ?pf)) = Inr (row_ptr b ! nat (?sel (i + ?pf)))"
      by (simp add: nth_chk_Inr)
    show ?thesis unfolding a using idx[OF that(1) i] c by simp
  qed
  have second: "for_range i0 end' ?row t = Inr (fold (\<lambda>i. ?F (?sel i)) [i0..end' - 1] t)"
    if "start \<le> i0" "?I t" for i0 t
    by (rule for_range_fold[where I = ?I]) (use that row in auto)
  have conv: "fold (\<lambda>i. ?F (?sel i)) is t = fold ?F (map ?sel is) t" for "is" t
    by (simp add: fold_map comp_def)
  show ?thesis
  proof (cases use_prefetch)
    case False
    then show ?thesis
      unfolding ConstructHistogramInner_def using second[of start out]
      by (simp add: conv active_rows_def)
  next
    case True
    have first: "for_loop start ?pf_end ?pfrow out =
        Inr (max start ?pf_end, fold (\<lambda>i. ?F (?sel i)) [start..?pf_end - 1] out) \<and>
        ?I (fold (\<lambda>i. ?F (?sel i)) [start..?pf_end - 1] out)"
    proof (rule for_loop_fold[where I = ?I])
      show "?I out" by simp
    next
      fix j and t :: "'h list" assume j: "start \<le> j" "j < ?pf_end" "?I t"
      have "j < end'" using j pf_offset_nonneg[where 'a = 'a] by linarith
      then show "?pfrow j t = Inr (?F (?sel j) t) \<and> ?I (?F (?sel j) t)"
        using pfrow[OF j(1,2)] row[OF j(1) _ j(3)] by simp
    qed
    have "fold (\<lambda>i. ?F (?sel i)) [max start ?pf_end..end' - 1]
            (fold (\<lambda>i. ?F (?sel i)) [start..?pf_end - 1] out)
          = fold (\<lambda>i. ?F (?sel i)) ([start..?pf_end - 1] @ [max start ?pf_end..end' - 1]) out"
      by simp
    also have "[start..?pf_end - 1] @ [max start ?pf_end..end' - 1] = [start..end' - 1]"
      using pf_offset_nonneg[where 'a = 'a] by (intro upto_two_parts) linarith
    finally have join: "fold (\<lambda>i. ?F (?sel i)) [max start ?pf_end..end' - 1]
            (fold (\<lambda>i. ?F (?sel i)) [start..?pf_end - 1] out)
          = fold ?F (active_rows use_indices data_indices start end') out"
      by (simp add: conv active_rows_def)
    show ?thesis
      unfolding ConstructHistogramInner_def Let_def
      using True first second[of "max start ?pf_end" "fold (\<lambda>i. ?F (?sel i)) [start..?pf_end - 1] out"] join
      by (simp)
  qed
qed

lemma fold_rows_length [simp]:
  "length (fold (\<lambda>r. fold (add_gh add (g r) (h r)) (vs r)) rows out) = length out"
  by (induction rows arbitrary: out) simp_all

lemma fold_rows_nth:
  assumes "\<forall>r\<in>set rows. \<forall>v\<in>set (vs r). 2 * unat v + 1 < length out" "e < length out"
  shows "fold (\<lambda>r. fold (add_gh add (g r) (h r)) (vs r)) rows out ! e =
     foldl add (out ! e)
       (concat (map (\<lambda>r. concat (map (\<lambda>v. entry_terms e v (g r) (h r)) (vs r))) rows))"
  using assms
proof (induction rows arbitrary: out)
  case Nil
  then show ?case by simp
next
  case (Cons r rows)
  let ?o1 = "fold (add_gh add (g r) (h r)) (vs r) out"
  have "fold (\<lambda>r. fold (add_gh add (g r) (h r)) (vs r)) rows ?o1 ! e =
      foldl add (?o1 ! e)
        (concat (map (\<lambda>r. concat (map (\<lambda>v. entry_terms e v (g r) (h r)) (vs r))) rows))"
    using Cons.prems by (intro Cons.IH) simp_all
  moreover have "?o1 ! e = foldl add (out ! e) (concat (map (\<lambda>v. entry_terms e v (g r) (h r)) (vs r)))"
    using Cons.prems by (intro fold_add_gh_nth) simp_all
  ultimately show ?case by simp
qed

text \<open>
  Every entry of the result is its old value with the contributions of the call added
  one after the other, in the order of the program.
\<close>

lemma ConstructHistogramInner_nth:
  fixes b :: "'a::len word MultiValSparseBin" and add :: "'h \<Rightarrow> 's::one \<Rightarrow> 'h"
  assumes ok: "histogram_call_ok b use_indices use_hessians data_indices start end' gradients hessians out"
  shows "\<exists>out'. ConstructHistogramInner add b use_indices use_prefetch use_hessians data_indices start end'
           gradients hessians out = Inr out' \<and> length out' = length out \<and>
         (\<forall>e<length out. out' ! e = foldl add (out ! e)
            (contributions b (active_rows use_indices data_indices start end') gradients use_hessians hessians e))"
proof -
  let ?rows = "active_rows use_indices data_indices start end'"
  let ?res = "fold (\<lambda>r. fold (add_gh add (gradients ! nat r) (hessian_of use_hessians hessians r))
                          (row_values b r)) ?rows out"
  have bins: "\<forall>v\<in>set (data b). 2 * unat v + 1 < length out"
    using ok by (simp add: histogram_call_ok_def)
  have rv: "\<forall>r\<in>set ?rows. \<forall>v\<in>set (row_values b r). 2 * unat v + 1 < length out"
  proof (intro ballI)
    fix r v assume "v \<in> set (row_values b r)"
    then have "v \<in> set (data b)" using set_row_values[of b r] by (rule subsetD[rotated])
    then show "2 * unat v + 1 < length out" using bins by (rule bspec[rotated])
  qed
  have eq: "ConstructHistogramInner add b use_indices use_prefetch use_hessians data_indices start end'
           gradients hessians out = Inr ?res"
    by (rule ConstructHistogramInner_fold[OF ok])
  have len: "length ?res = length out" by (rule fold_rows_length)
  have nth: "?res ! e = foldl add (out ! e) (contributions b ?rows gradients use_hessians hessians e)"
    if "e < length out" for e
    unfolding contributions_def by (rule fold_rows_nth[OF rv that])
  show ?thesis using eq len nth by blast
qed

text \<open>Over exact reals the contributions add up to a sum.\<close>

lemma foldl_add_sum_list: "foldl (+) x cs = x + sum_list (cs :: real list)"
  by (induction cs arbitrary: x) simp_all

lemma sum_list_concat_map: "sum_list (concat (map f xs)) = (\<Sum>x\<leftarrow>xs. sum_list (f x :: real list))"
  by (induction xs) simp_all

lemma sum_list_entry_terms: "sum_list (entry_terms e v g h) = contribution e v g h"
  by (simp add: entry_terms_def contribution_def)

lemma sum_list_contributions:
  "sum_list (contributions b rows gradients use_hessians hessians e) =
     accumulated b rows gradients use_hessians hessians e"
  by (simp add: contributions_def accumulated_def sum_list_concat_map sum_list_entry_terms)

lemma ConstructHistogramInner_exact:
  fixes b :: "'a::len word MultiValSparseBin"
  assumes ok: "histogram_call_ok b use_indices use_hessians data_indices start end' gradients hessians out"
  shows "\<exists>out'. ConstructHistogramInner (+) b use_indices use_prefetch use_hessians data_indices start end'
           gradients hessians out = Inr out' \<and> length out' = length out \<and>
         (\<forall>e<length out. out' ! e = out ! e +
            accumulated b (active_rows use_indices data_indices start end') gradients use_hessians hessians e)"
  using ConstructHistogramInner_nth[OF ok, where add = "(+)" and use_prefetch = use_prefetch]
  by (simp add: foldl_add_sum_list sum_list_contributions)

subsection \<open>Integers in range, roundings and reservations\<close>

lemma int_add_Inr: "in_int (a + b) \<Longrightarrow> int_add a b = Inr (a + b)"
  by (simp add: int_add_def)

lemma int_sub_Inr: "in_int (a - b) \<Longrightarrow> int_sub a b = Inr (a - b)"
  by (simp add: int_sub_def)


lemma in_int_between: "0 \<le> x \<Longrightarrow> x \<le> INT_MAX \<Longrightarrow> in_int x"
  by (simp add: in_int_def INT_MAX_def)

lemma round_to_exact [simp]: "round_to exact = Finite"
  unfolding exact_def by (rule Abs_rounding_inverse) simp

lemma round_to_int: "\<bar>k\<bar> \<le> 2 ^ 53 \<Longrightarrow> round_to rnd (real_of_int k) = Finite (real_of_int k)"
  using round_to[of rnd] by simp

lemma round_to_zero [simp]: "round_to rnd 0 = Finite 0"
  using round_to_int[of 0 rnd] by simp

lemma round_to_one [simp]: "round_to rnd 1 = Finite 1"
  using round_to_int[of 1 rnd] by simp

text \<open>Nothing is reserved for a structure without rows, whatever the finite hint.\<close>

lemma estimate_num_data_no_rows: "estimate_num_data rnd 0 (Finite x) = Inr 0"
  by (simp add: estimate_num_data_def double_mul_def to_data_size_def in_int_def INT_MAX_def)

lemma int_div_nonneg:
  assumes "0 \<le> a" "1 \<le> b"
  shows "int_div a b = Inr (a div b)" "0 \<le> a div b"
  using assms by (simp_all add: int_div_def pos_imp_zdiv_nonneg_iff)

lemma reserve_share:
  assumes "0 \<le> e" "1 \<le> num_threads"
  shows "and_then (int_div e num_threads) reserve = Inr ()"
  using int_div_nonneg[OF assms] by (simp add: reserve_def)

lemma fold_const_id: "fold (\<lambda>j t. t) js s = s"
  by (induction js) simp_all

lemma for_range_skip: "for_range i k (\<lambda>j. Inr) s = Inr s"
proof -
  have "for_range i k (\<lambda>j. Inr) s = Inr (fold (\<lambda>j t. t) [i..k - 1] s)"
    by (rule for_range_fold[where I = "\<lambda>t. True"]) simp_all
  then show ?thesis by (simp add: fold_const_id)
qed

text \<open>
  The constructor returns when the number of rows and the reservation are in range.
\<close>

lemma MultiValSparseBin_ctor_Inr:
  assumes n: "0 \<le> n" "n < INT_MAX" and t: "1 \<le> num_threads"
    and e: "estimate_num_data rnd n estimate = Inr e" "0 \<le> e"
  shows "MultiValSparseBin_ctor rnd num_threads n nb estimate =
     Inr \<lparr> num_data = n, num_bin = nb, estimate_element_per_row = estimate,
           data = [], row_ptr = replicate (nat (n + 1)) 0,
           t_data = replicate (nat (num_threads - 1)) [] \<rparr>"
proof -
  have a: "int_add n 1 = Inr (n + 1)"
    using n by (intro int_add_Inr in_int_between) simp_all
  have r: "replicate (nat (num_threads - 1)) [] = ([] :: 'a list list)" if "\<not> 1 < num_threads"
    using that t by simp
  show ?thesis
    unfolding MultiValSparseBin_ctor_def a e(1)
    using n r by (simp add: reserve_share[OF e(2) t] for_range_skip)
qed

lemma entry_terms_other_bin: "unat v \<noteq> e div 2 \<Longrightarrow> entry_terms e v g h = []"
  by (auto simp: entry_terms_def)

lemma concat_all_Nil: "(\<And>x. x \<in> set xs \<Longrightarrow> f x = []) \<Longrightarrow> concat (map f xs) = []"
  by (induction xs) simp_all

lemma contributions_untouched:
  assumes "\<forall>r\<in>set rows. \<forall>v\<in>set (row_values b r). unat v \<noteq> e div 2"
  shows "contributions b rows gradients use_hessians hessians e = []"
proof -
  have inner: "concat (map (\<lambda>v. entry_terms e v (gradients ! nat r) (hessian_of use_hessians hessians r))
                 (row_values b r)) = []"
    if "r \<in> set rows" for r
    using assms that by (intro concat_all_Nil) (simp add: entry_terms_other_bin)
  show ?thesis unfolding contributions_def by (rule concat_all_Nil) (rule inner)
qed

lemma contributions_append:
  "contributions b (rows @ rows') g uh h e = contributions b rows g uh h e @ contributions b rows' g uh h e"
  by (simp add: contributions_def)

lemma accumulated_append:
  "accumulated b (rows @ rows') g uh h e = accumulated b rows g uh h e + accumulated b rows' g uh h e"
  by (simp add: accumulated_def)

lemma active_rows_split:
  assumes "start \<le> m" "m \<le> end'"
  shows "active_rows ui di start end' = active_rows ui di start m @ active_rows ui di m end'"
proof -
  have "[start..end' - 1] = [start..m - 1] @ [m..end' - 1]"
  proof (cases "m = end'")
    case False
    then show ?thesis using assms by (intro upto_split1) simp_all
  qed simp
  then show ?thesis by (simp add: active_rows_def)
qed

lemma histogram_call_ok_split:
  assumes ok: "histogram_call_ok b ui uh di start end' g h out" and m: "start \<le> m" "m \<le> end'"
  shows "histogram_call_ok b ui uh di start m g h out" "histogram_call_ok b ui uh di m end' g h out"
proof -
  have rows: "set (active_rows ui di start end') = set (active_rows ui di start m) \<union> set (active_rows ui di m end')"
    by (simp add: active_rows_split[OF m])
  show "histogram_call_ok b ui uh di start m g h out"
    using ok m unfolding histogram_call_ok_def rows by auto
  show "histogram_call_ok b ui uh di m end' g h out"
    using ok m unfolding histogram_call_ok_def rows by auto
qed

lemma histogram_call_ok_length:
  "histogram_call_ok b ui uh di start end' g h out \<Longrightarrow> length out' = length out \<Longrightarrow>
     histogram_call_ok b ui uh di start end' g h out'"
  by (simp add: histogram_call_ok_def)

lemma active_rows_identity:
  assumes "\<forall>i\<in>set [start..end' - 1]. data_indices ! nat i = i"
  shows "active_rows True data_indices start end' = active_rows False [] start end'"
proof -
  have "map (\<lambda>i. data_indices ! nat i) [start..end' - 1] = map (\<lambda>i. i) [start..end' - 1]"
    using assms by (intro map_cong refl) simp
  then show ?thesis by (simp add: active_rows_def)
qed

lemma histogram_call_ok_identity:
  assumes ok: "histogram_call_ok b True uh data_indices start end' g h out"
    and ident: "\<forall>i\<in>set [start..end' - 1]. data_indices ! nat i = i"
  shows "histogram_call_ok b False uh [] start end' g h out"
  using ok unfolding histogram_call_ok_def active_rows_identity[OF ident] by simp

lemma histogram_call_ok_no_hessians:
  "histogram_call_ok b ui uh di start end' g h out \<Longrightarrow> histogram_call_ok b ui False di start end' g [] out"
  by (simp add: histogram_call_ok_def)

lemma hessian_of_absent: "hessian_of False h = hessian_of False []"
  by (simp add: hessian_of_def fun_eq_iff)

subsection \<open>Loops with invariants\<close>

text \<open>A loop with an invariant that follows the counter.\<close>

lemma for_loop_invariant:
  assumes "I i s"
    and "\<And>j t. i \<le> j \<Longrightarrow> j < n \<Longrightarrow> I j t \<Longrightarrow> \<exists>t'. body j t = Inr t' \<and> I (j + 1) t'"
  shows "\<exists>s'. for_loop i n body s = Inr (max i n, s') \<and> I (max i n) s'"
  using assms
proof (induction i n body s rule: for_loop.induct)
  case (1 i n body s)
  show ?case
  proof (cases "i < n")
    case False
    then show ?thesis using "1.prems"(1) by (simp add: for_loop_stop max_def)
  next
    case True
    obtain t' where b: "body i s = Inr t'" and I': "I (i + 1) t'"
      using "1.prems"(2)[of i s] True "1.prems"(1) by auto
    have "\<exists>s'. for_loop (i + 1) n body t' = Inr (max (i + 1) n, s') \<and> I (max (i + 1) n) s'"
      by (rule "1.IH"[OF True b I']) (use "1.prems"(2) in auto)
    then show ?thesis using True b by (simp add: for_loop_step max_def)
  qed
qed

lemma for_range_invariant:
  assumes "I i s" "i \<le> n"
    and "\<And>j t. i \<le> j \<Longrightarrow> j < n \<Longrightarrow> I j t \<Longrightarrow> \<exists>t'. body j t = Inr t' \<and> I (j + 1) t'"
  shows "\<exists>s'. for_range i n body s = Inr s' \<and> I n s'"
  using for_loop_invariant[of I i s n body, OF assms(1,3)] assms(2)
  by (auto simp: for_range_def max_def)

text \<open>What every step of a loop keeps, the loop keeps.\<close>

lemma for_loop_preserves:
  assumes "for_loop i n body s = Inr (k, s')" "P s"
    and "\<And>j t t'. body j t = Inr t' \<Longrightarrow> P t \<Longrightarrow> P t'"
  shows "P s'"
  using assms
proof (induction i n body s rule: for_loop.induct)
  case (1 i n body s)
  show ?case
  proof (cases "i < n")
    case False
    then show ?thesis using "1.prems"(1,2) by (simp add: for_loop_stop)
  next
    case True
    then obtain t where b: "body i s = Inr t" and r: "for_loop (i + 1) n body t = Inr (k, s')"
      using "1.prems"(1) by (auto simp: for_loop_step and_then_eq_Inr)
    have "P t" using "1.prems"(3)[OF b "1.prems"(2)] .
    then show ?thesis using "1.IH"[OF True b r] "1.prems"(3) by blast
  qed
qed

lemma for_range_preserves:
  assumes "for_range i n body s = Inr s'" "P s"
    and "\<And>j t t'. body j t = Inr t' \<Longrightarrow> P t \<Longrightarrow> P t'"
  shows "P s'"
proof -
  obtain k where "for_loop i n body s = Inr (k, s')"
    using assms(1) by (auto simp: for_range_def and_then_eq_Inr)
  then show ?thesis using assms(2,3) by (rule for_loop_preserves)
qed

lemma replicate_num: "replicate (numeral k) x = x # replicate (pred_numeral k) x"
  by (simp add: numeral_eq_Suc)

text \<open>The examples are what the constructor and the loading operations produce.\<close>

lemma estimate_num_data_exact:
  "estimate_num_data exact n (Finite x) = to_data_size (Finite (real_of_int n * x * (3 / 2)))"
  by (simp add: estimate_num_data_def double_mul_def)

lemma to_data_size_Inr:
  "0 \<le> x \<Longrightarrow> \<lfloor>x\<rfloor> \<le> INT_MAX \<Longrightarrow> to_data_size (Finite x) = Inr \<lfloor>x\<rfloor>"
  by (simp add: to_data_size_def in_int_def INT_MAX_def)

text \<open>Without rounding, room can be made for every hint from 0 up to the range.\<close>

lemma reservation_ok_exact:
  assumes "0 \<le> real_of_int n * x" "\<lfloor>real_of_int n * x * (3 / 2)\<rfloor> \<le> INT_MAX"
  shows "reservation_ok exact n (Finite x)"
proof -
  have "0 \<le> real_of_int n * x * (3 / 2)" using assms(1) by simp
  then have "to_data_size (Finite (real_of_int n * x * (3 / 2))) = Inr \<lfloor>real_of_int n * x * (3 / 2)\<rfloor>"
    "0 \<le> \<lfloor>real_of_int n * x * (3 / 2)\<rfloor>"
    using assms(2) by (simp_all add: to_data_size_Inr)
  then show ?thesis by (simp add: reservation_ok_def estimate_num_data_exact)
qed

lemma ctor_empty_three: "MultiValSparseBin_ctor exact 1 3 8 (Finite 5) = Inr empty_three"
proof -
  have e: "estimate_num_data exact 3 (Finite 5) = Inr 22"
    by (simp add: estimate_num_data_exact to_data_size_Inr INT_MAX_def)
  show ?thesis
    using MultiValSparseBin_ctor_Inr[OF _ _ _ e, of 1 8]
    by (simp add: INT_MAX_def empty_three_def replicate_num)
qed

lemma load_three_rows:
  "and_then (MultiValSparseBin_ctor exact 2 3 8 (Finite 1) :: error + 8 word MultiValSparseBin) (\<lambda>b.
   and_then (PushOneRow b 1 2 [1] 1) (\<lambda>b. and_then (PushOneRow b 0 0 [3,7] 2) (\<lambda>b.
   and_then (PushOneRow b 0 1 [] 0) (FinishLoad exact)))) = Inr three_rows"
proof -
  have e: "estimate_num_data exact 3 (Finite 1) = Inr 4"
    by (simp add: estimate_num_data_exact to_data_size_Inr INT_MAX_def)
  have c: "(MultiValSparseBin_ctor exact 2 3 8 (Finite 1) :: error + 8 word MultiValSparseBin) =
     Inr \<lparr> num_data = 3, num_bin = 8, estimate_element_per_row = Finite 1,
           data = [], row_ptr = [0, 0, 0, 0], t_data = [[]] \<rparr>"
    using MultiValSparseBin_ctor_Inr[OF _ _ _ e, of 2 8]
    by (simp add: INT_MAX_def replicate_num)
  show ?thesis
    unfolding c
    by (simp add: PushOneRow_def FinishLoad_def MoveData_def for_range_step for_range_stop
     nth_chk_def upd_chk_def three_rows_def copy_n_def resize_vec_def double_div_def
     int_add_def in_int_def INT_MAX_def)
qed

lemma MoveData_no_rows:
  fixes b :: "'a::len word MultiValSparseBin"
  assumes b: "num_data b = 0" "data b = []" "row_ptr b = [0]" "t_data b = replicate k []"
  shows "MoveData False [] b = Inr b"
proof -
  have first: "for_range 0 (num_data b) (\<lambda>i rp.
          and_then (nth_chk rp (i + 1)) (\<lambda>x.
          and_then (nth_chk rp i) (\<lambda>y.
          and_then (int_add x y) (\<lambda>z. upd_chk rp (i + 1) z)))) (row_ptr b) = Inr [0]"
    using b by (simp add: for_range_stop)
  have same: "b\<lparr>row_ptr := [0]\<rparr> = b" using b by simp
  show ?thesis
  proof (cases "k = 0")
    case True
    then show ?thesis unfolding MoveData_def first using b same by simp
  next
    case False
    let ?obody = "\<lambda>tid offsets.
                 and_then (if False then nth_chk [] (tid + 1)
                           else and_then (nth_chk (t_data b) tid) (\<lambda>buf. Inr (length buf)))
                   (\<lambda>n. Inr (offsets @ [last offsets + n]))"
    have ex: "\<exists>offs. for_range 0 (int (length (t_data b)) - 1) ?obody [0] = Inr offs \<and>
             offs = replicate (nat (int (length (t_data b)) - 1) + 1) 0"
    proof (rule for_range_invariant[where I = "\<lambda>j offs. offs = replicate (nat j + 1) 0"])
      show "[0::nat] = replicate (nat 0 + 1) 0" by simp
      show "0 \<le> int (length (t_data b)) - 1" using False b by simp
    next
      fix j and t :: "nat list"
      assume j: "0 \<le> j" "j < int (length (t_data b)) - 1" and t: "t = replicate (nat j + 1) 0"
      have r: "nth_chk (t_data b) j = Inr []" using j b by (simp add: nth_chk_def)
      have l: "last t = 0" unfolding t by (simp del: replicate_Suc)
      have "replicate (nat j + 1) (0::nat) @ [0] = replicate (nat (j + 1) + 1) 0"
        using j by (simp add: nat_add_distrib replicate_append_same)
      then have a: "t @ [0] = replicate (nat (j + 1) + 1) 0" unfolding t .
      show "\<exists>t'. ?obody j t = Inr t' \<and> t' = replicate (nat (j + 1) + 1) 0"
        by (simp only: r l a if_False and_then_Inr list.size add_0_right) simp
    qed
    have k: "nat (int (length (t_data b)) - 1) + 1 = k" using False b by simp
    have offs: "for_range 0 (int (length (t_data b)) - 1) ?obody [0] = Inr (replicate k 0)"
      using ex unfolding k by (elim exE conjE) (simp only:)
    let ?b0 = "b\<lparr>row_ptr := [0], data := resize_vec (data b) (nat 0) 0\<rparr>"
    have b0: "?b0 = b" using b by (simp add: resize_vec_def)
    let ?cbody = "\<lambda>tid b'.
                and_then (nth_chk (t_data b') tid) (\<lambda>buf.
                and_then (if False then nth_chk [] (tid + 1) else Inr (length buf)) (\<lambda>cnt.
                and_then (nth_chk (replicate k 0) tid) (\<lambda>off.
                and_then (copy_n buf cnt (data b') off) (\<lambda>d.
                  Inr (b'\<lparr>data := d\<rparr>)))))"
    have "for_range 0 (int (length (t_data b))) ?cbody b = Inr (fold (\<lambda>j t. t) [0..int (length (t_data b)) - 1] b)"
    proof (rule for_range_fold[where I = "\<lambda>t. t = b"])
      fix j t assume "0 \<le> j" "j < int (length (t_data b))" "t = b"
      then show "?cbody j t = Inr t \<and> t = b"
        using b by (simp add: nth_chk_def copy_n_def)
    qed simp
    then have copy: "for_range 0 (int (length (t_data b))) ?cbody b = Inr b"
      by (simp add: fold_const_id)
    show ?thesis
      unfolding MoveData_def first using False b offs copy b0
      by (simp add: nth_chk_def)
  qed
qed

subsection \<open>Copying a subset of the rows\<close>

lemma fold_snoc_map: "fold (\<lambda>j d. d @ [g j]) js d0 = d0 @ map g js"
  by (induction js arbitrary: d0) simp_all

lemma copy_slice_loop:
  assumes "0 \<le> j0" "j1 \<le> int (length xs)"
  shows "for_range j0 j1 (\<lambda>j d. and_then (nth_chk xs j) (\<lambda>v. Inr (d @ [v]))) d0 =
     Inr (d0 @ take (nat (j1 - j0)) (drop (nat j0) xs))"
proof -
  have "for_range j0 j1 (\<lambda>j d. and_then (nth_chk xs j) (\<lambda>v. Inr (d @ [v]))) d0 =
      Inr (fold (\<lambda>j d. d @ [xs ! nat j]) [j0..j1 - 1] d0)"
    by (rule for_range_fold[where I = "\<lambda>_. True"]) (use assms in \<open>auto simp: nth_chk_Inr\<close>)
  then show ?thesis using assms by (simp add: fold_snoc_map map_nth_upto)
qed

lemma length_row_values:
  assumes "finalized b" "0 \<le> r" "r < num_data b"
  shows "int (length (row_values b r)) = row_ptr b ! nat (r + 1) - row_ptr b ! nat r"
  using finalized_offsets[OF assms] by (simp add: row_values_def Let_def min_def) linarith

lemma concat_slice:
  assumes "i < length xss"
  shows "take (length (xss ! i)) (drop (length (concat (take i xss))) (concat xss)) = xss ! i"
proof -
  have "xss = take i xss @ xss ! i # drop (Suc i) xss"
    using assms by (simp add: id_take_nth_drop)
  then have "concat xss = concat (take i xss) @ xss ! i @ concat (drop (Suc i) xss)"
    by (metis concat.simps(2) concat_append)
  then show ?thesis by simp
qed

lemma length_concat_take_mono:
  "i \<le> j \<Longrightarrow> length (concat (take i xss)) \<le> length (concat (take j xss))"
proof -
  assume "i \<le> j"
  then have "take j xss = take i xss @ take (j - i) (drop i xss)"
    by (metis le_add_diff_inverse take_add)
  then show ?thesis by simp
qed

lemma length_concat_take_Suc:
  "i < length xss \<Longrightarrow>
     length (concat (take (Suc i) xss)) = length (concat (take i xss)) + length (xss ! i)"
  by (simp add: take_Suc_conv_app_nth)

lemma resize_vec_length [simp]: "length (resize_vec xs n z) = n"
  by (simp add: resize_vec_def)

lemma resize_vec_first:
  assumes "0 < n" "xs \<noteq> [] \<longrightarrow> xs ! 0 = z"
  shows "resize_vec xs n z ! 0 = z"
  using assms by (cases xs) (simp_all add: resize_vec_def nth_append)

lemma length_concat_take_le:
  "length (concat (map f (take j xs))) \<le> length (concat (map f xs))"
proof -
  have "concat (map f xs) = concat (map f (take j xs)) @ concat (map f (drop j xs))"
    by (metis append_take_drop_id concat_append map_append)
  then show ?thesis by simp
qed

text \<open>
  The state \<open>CopySubset\<close> ends in, with a source that is another structure, when the
  reservation is in range and the sums of offsets stay in the range of \<open>data_size_t\<close>.
\<close>

lemma CopySubset_result:
  fixes other b :: "'v MultiValSparseBin"
  assumes fin: "finalized other" and rep: "representable other"
    and ids: "\<forall>u\<in>set used. 0 \<le> u \<and> u < num_data other"
    and sz: "num_data b = int (length used)" "int (length used) < INT_MAX"
    and base: "row_ptr b \<noteq> [] \<longrightarrow> row_ptr b ! 0 = 0"
    and res: "estimate_num_data rnd (num_data b) (estimate_element_per_row b) = Inr e" "0 \<le> e"
    and tot: "int (length (concat (map (row_values other) used))) + int (length (data other)) \<le> INT_MAX"
  shows "\<exists>b'. CopySubset rnd b (Other other) used (int (length used)) = Inr b' \<and>
     num_data b' = num_data b \<and>
     data b' = concat (map (row_values other) used) \<and>
     length (row_ptr b') = length used + 1 \<and>
     (\<forall>j\<le>length used. row_ptr b' ! j = int (length (concat (map (row_values other) (take j used)))))"
proof -
  let ?rv = "row_values other"
  let ?offs = "\<lambda>j. int (length (concat (map ?rv (take j used))))"
  let ?n = "int (length used)"
  let ?I = "\<lambda>k t. num_data t = num_data b \<and> data t = concat (map ?rv (take (nat k) used)) \<and>
     length (row_ptr t) = length used + 1 \<and> (\<forall>j\<le>nat k. row_ptr t ! j = ?offs j)"
  let ?b0 = "b\<lparr>row_ptr := resize_vec (row_ptr b) (nat (num_data b + 1)) 0, data := []\<rparr>"
  let ?body = "\<lambda>i b'.
           and_then (nth_chk used i) (\<lambda>u.
           and_then (nth_chk (row_ptr (deref (Other other) b')) u) (\<lambda>j0.
           and_then (int_add u 1) (\<lambda>u1.
           and_then (nth_chk (row_ptr (deref (Other other) b')) u1) (\<lambda>j1.
           and_then
             (for_range j0 j1 (\<lambda>j d.
                and_then (nth_chk (data (deref (Other other) (b'\<lparr>data := d\<rparr>))) j) (\<lambda>v. Inr (d @ [v])))
                (data b'))
             (\<lambda>d.
           and_then (nth_chk (row_ptr b') i) (\<lambda>p.
           and_then (int_add p j1) (\<lambda>q.
           and_then (int_sub q j0) (\<lambda>r.
           and_then (upd_chk (row_ptr b') (i + 1) r) (\<lambda>rp.
             Inr (b'\<lparr>data := d, row_ptr := rp\<rparr>))))))))))"
  have other_rows: "num_data other \<le> INT_MAX"
    using rep by (simp add: representable_def in_int_def)
  have init: "?I 0 ?b0"
    using sz base by (simp add: nat_add_distrib resize_vec_first)
  have step: "\<exists>t'. ?body i t = Inr t' \<and> ?I (i + 1) t'"
    if i: "0 \<le> i" "i < ?n" and t: "?I i t" for i and t :: "'v MultiValSparseBin"
  proof -
    let ?u = "used ! nat i"
    let ?j0 = "row_ptr other ! nat ?u" and ?j1 = "row_ptr other ! nat (?u + 1)"
    have ni: "nat i < length used" using i by simp
    then have "?u \<in> set used" by simp
    then have u: "0 \<le> ?u" "?u < num_data other" using ids by auto
    note o = finalized_offsets[OF fin u]
    have nat_suc: "nat (i + 1) = Suc (nat i)" using i by simp
    have d: "concat (map ?rv (take (Suc (nat i)) used)) = concat (map ?rv (take (nat i) used)) @ ?rv ?u"
      using ni by (simp add: take_Suc_conv_app_nth)
    have next_off: "?offs (nat i) + ?j1 - ?j0 = ?offs (Suc (nat i))"
      using length_row_values[OF fin u] d by simp
    have off_le: "?offs (nat i) \<le> int (length (concat (map ?rv used)))"
      using length_concat_take_le[of ?rv "nat i" used] by simp
    have r1: "nth_chk used i = Inr ?u" using i by (simp add: nth_chk_Inr)
    have r2: "nth_chk (row_ptr (deref (Other other) t)) ?u = Inr ?j0"
      using u o by (simp add: nth_chk_Inr deref_def)
    have r2b: "int_add ?u 1 = Inr (?u + 1)"
      using u other_rows by (intro int_add_Inr in_int_between) simp_all
    have r3: "nth_chk (row_ptr (deref (Other other) t)) (?u + 1) = Inr ?j1"
      using u o by (simp add: nth_chk_Inr deref_def)
    have r4: "for_range ?j0 ?j1 (\<lambda>j d.
          and_then (nth_chk (data (deref (Other other) (t\<lparr>data := d\<rparr>))) j) (\<lambda>v. Inr (d @ [v]))) (data t)
        = Inr (data t @ ?rv ?u)"
      using o by (simp add: copy_slice_loop row_values_def Let_def deref_def)
    have r5: "nth_chk (row_ptr t) i = Inr (?offs (nat i))"
      using i t by (simp add: nth_chk_Inr)
    have r5b: "int_add (?offs (nat i)) ?j1 = Inr (?offs (nat i) + ?j1)"
      using o off_le tot by (intro int_add_Inr in_int_between) simp_all
    have r5c: "int_sub (?offs (nat i) + ?j1) ?j0 = Inr (?offs (nat i) + ?j1 - ?j0)"
      using o off_le tot by (intro int_sub_Inr in_int_between) simp_all
    let ?rp = "(row_ptr t)[nat (i + 1) := ?offs (nat i) + ?j1 - ?j0]"
    have r6: "upd_chk (row_ptr t) (i + 1) (?offs (nat i) + ?j1 - ?j0) = Inr ?rp"
      using i t by (simp add: upd_chk_Inr)
    let ?t' = "t\<lparr>data := data t @ ?rv ?u, row_ptr := ?rp\<rparr>"
    have res: "?body i t = Inr ?t'"
      by (simp only: r1 r2 r2b r3 r4 r5 r5b r5c r6 and_then_Inr)
    have rows: "?rp ! j = ?offs j" if "j \<le> Suc (nat i)" for j
    proof (cases "j = Suc (nat i)")
      case True
      then show ?thesis using ni t next_off by (simp add: nat_suc)
    next
      case False
      then have "j \<le> nat i" using that by simp
      then show ?thesis using t False by (simp add: nat_suc)
    qed
    have "?I (i + 1) ?t'"
      using t d rows by (simp add: nat_suc)
    then show ?thesis using res by blast
  qed
  have "\<exists>s'. for_range 0 ?n ?body ?b0 = Inr s' \<and> ?I ?n s'"
  proof (rule for_range_invariant[where I = ?I, OF init])
    show "0 \<le> ?n" by simp
  next
    fix j and t :: "'v MultiValSparseBin" assume "0 \<le> j" "j < ?n" "?I j t"
    then show "\<exists>t'. ?body j t = Inr t' \<and> ?I (j + 1) t'" by (rule step)
  qed
  then obtain b' where r: "for_range 0 ?n ?body ?b0 = Inr b'" and I: "?I ?n b'" by blast
  have a: "int_add (num_data b) 1 = Inr (num_data b + 1)"
    using sz by (intro int_add_Inr in_int_between) simp_all
  have v: "reserve e = Inr ()" using res(2) by (simp add: reserve_def)
  have "CopySubset rnd b (Other other) used ?n = Inr b'"
    unfolding CopySubset_def a res(1) and_then_Inr v using r sz by simp
  then show ?thesis using I by auto
qed

lemma take_upto_prefix:
  assumes "int k \<le> n"
  shows "take k [0..n - 1] = [0..int k - 1]"
proof (rule nth_equalityI)
  show "length (take k [0..n - 1]) = length [0..int k - 1]" using assms by simp
next
  fix i assume "i < length (take k [0..n - 1])"
  then have "i < k" "int i < n" using assms by auto
  then show "take k [0..n - 1] ! i = [0..int k - 1] ! i" by (simp add: nth_upto)
qed

lemma upto_snoc: "0 \<le> k \<Longrightarrow> [0..k] = [0..k - 1] @ [k::int]"
  by (simp add: upto_rec2)

text \<open>In a finalized structure the rows, one after the other, are the prefixes of the data.\<close>

lemma finalized_prefix:
  assumes fin: "finalized b" and k: "int k \<le> num_data b"
  shows "concat (map (row_values b) [0..int k - 1]) = take (nat (row_ptr b ! k)) (data b)
     \<and> 0 \<le> row_ptr b ! k \<and> row_ptr b ! k \<le> int (length (data b))"
  using k
proof (induction k)
  case 0
  have "row_ptr b ! 0 = 0" using fin by (simp add: finalized_def)
  then show ?case by simp
next
  case (Suc k)
  have r: "0 \<le> int k" "int k < num_data b" using Suc.prems by simp_all
  note o = finalized_offsets[OF fin r]
  have ih: "concat (map (row_values b) [0..int k - 1]) = take (nat (row_ptr b ! k)) (data b)"
    using Suc by simp
  have sk: "nat (int k + 1) = Suc k" by simp
  have "[0..int (Suc k) - 1] = [0..int k - 1] @ [int k]"
    using upto_snoc[of "int k"] by simp
  then have "concat (map (row_values b) [0..int (Suc k) - 1]) =
      take (nat (row_ptr b ! k)) (data b) @ row_values b (int k)"
    using ih by simp
  also have "\<dots> = take (nat (row_ptr b ! k)) (data b) @
      take (nat (row_ptr b ! Suc k - row_ptr b ! k)) (drop (nat (row_ptr b ! k)) (data b))"
    by (simp add: row_values_def Let_def sk)
  also have "\<dots> = take (nat (row_ptr b ! k) + nat (row_ptr b ! Suc k - row_ptr b ! k)) (data b)"
    by (simp add: take_add)
  also have "nat (row_ptr b ! k) + nat (row_ptr b ! Suc k - row_ptr b ! k) = nat (row_ptr b ! Suc k)"
    using o by (simp add: sk)
  finally show ?case using o by (simp add: sk)
qed

lemma finalized_last:
  assumes "finalized b"
  shows "row_ptr b ! nat (num_data b) = int (length (data b))"
proof -
  have "row_ptr b \<noteq> []" "length (row_ptr b) - 1 = nat (num_data b)"
    using assms by (auto simp: finalized_def)
  then have "last (row_ptr b) = row_ptr b ! nat (num_data b)" by (simp add: last_conv_nth)
  then show ?thesis using assms by (simp add: finalized_def)
qed

subsection \<open>Loading\<close>

lemma PushOneRow_first_thread:
  fixes b :: "'a::len word MultiValSparseBin"
  assumes idx: "0 \<le> idx" "idx + 1 < int (length (row_ptr b))"
    and sz: "0 \<le> sz" "sz \<le> int (length vs)"
  shows "PushOneRow b 0 idx vs sz =
     Inr (b\<lparr>row_ptr := (row_ptr b)[nat (idx + 1) := sz],
            data := data b @ map ucast (take (nat sz) vs)\<rparr>)"
proof -
  let ?b1 = "b\<lparr>row_ptr := (row_ptr b)[nat (idx + 1) := sz]\<rparr>"
  let ?body = "\<lambda>i (b' :: 'a word MultiValSparseBin).
           and_then (nth_chk vs i) (\<lambda>v. Inr (b'\<lparr>data := data b' @ [ucast v]\<rparr>))"
  let ?I = "\<lambda>k t. t = ?b1\<lparr>data := data b @ map ucast (take (nat k) vs)\<rparr>"
  have "\<exists>s'. for_range 0 sz ?body ?b1 = Inr s' \<and> ?I sz s'"
  proof (rule for_range_invariant[where I = ?I])
    show "?I 0 ?b1" by simp
    show "0 \<le> sz" by fact
  next
    fix j and t :: "'a word MultiValSparseBin"
    assume j: "0 \<le> j" "j < sz" and t: "?I j t"
    have nj: "nat j < length vs" using j sz by simp
    have "take (nat (j + 1)) vs = take (nat j) vs @ [vs ! nat j]"
      using j nj by (simp add: nat_add_distrib take_Suc_conv_app_nth)
    then have "?I (j + 1) (t\<lparr>data := data t @ [ucast (vs ! nat j)]\<rparr>)"
      unfolding t by simp
    moreover have "?body j t = Inr (t\<lparr>data := data t @ [ucast (vs ! nat j)]\<rparr>)"
      using j nj by (simp add: nth_chk_Inr)
    ultimately show "\<exists>t'. ?body j t = Inr t' \<and> ?I (j + 1) t'" by blast
  qed
  then have "for_range 0 sz ?body ?b1 = Inr (?b1\<lparr>data := data b @ map ucast (take (nat sz) vs)\<rparr>)"
    by blast
  then show ?thesis
    using idx by (simp add: PushOneRow_def upd_chk_Inr)
qed

lemma PushOneRow_other_thread:
  fixes b :: "'a::len word MultiValSparseBin"
  assumes idx: "0 \<le> idx" "idx + 1 < int (length (row_ptr b))"
    and sz: "0 \<le> sz" "sz \<le> int (length vs)"
    and tid: "1 \<le> tid" "tid \<le> int (length (t_data b))"
  shows "PushOneRow b tid idx vs sz =
     Inr (b\<lparr>row_ptr := (row_ptr b)[nat (idx + 1) := sz],
            t_data := (t_data b)[nat (tid - 1) :=
                         t_data b ! nat (tid - 1) @ map ucast (take (nat sz) vs)]\<rparr>)"
proof -
  let ?p = "nat (tid - 1)"
  have p: "?p < length (t_data b)" "0 \<le> tid - 1" "tid - 1 < int (length (t_data b))"
    using tid by simp_all
  let ?b1 = "b\<lparr>row_ptr := (row_ptr b)[nat (idx + 1) := sz]\<rparr>"
  let ?body = "\<lambda>i (b' :: 'a word MultiValSparseBin).
           and_then (nth_chk (t_data b') (tid - 1)) (\<lambda>buf.
           and_then (nth_chk vs i) (\<lambda>v.
             Inr (b'\<lparr>t_data := (t_data b')[nat (tid - 1) := buf @ [ucast v]]\<rparr>)))"
  let ?I = "\<lambda>k t. t = ?b1\<lparr>t_data := (t_data b)[?p := t_data b ! ?p @ map ucast (take (nat k) vs)]\<rparr>"
  have "\<exists>s'. for_range 0 sz ?body ?b1 = Inr s' \<and> ?I sz s'"
  proof (rule for_range_invariant[where I = ?I])
    show "?I 0 ?b1" by simp
    show "0 \<le> sz" by fact
  next
    fix j and t :: "'a word MultiValSparseBin"
    assume j: "0 \<le> j" "j < sz" and t: "?I j t"
    have nj: "nat j < length vs" using j sz by simp
    have tk: "take (nat (j + 1)) vs = take (nat j) vs @ [vs ! nat j]"
      using j nj by (simp add: nat_add_distrib take_Suc_conv_app_nth)
    have buf: "nth_chk (t_data t) (tid - 1) = Inr (t_data b ! ?p @ map ucast (take (nat j) vs))"
      unfolding t using p by (simp add: nth_chk_Inr)
    have v: "nth_chk vs j = Inr (vs ! nat j)" using j nj by (simp add: nth_chk_Inr)
    let ?t' = "t\<lparr>t_data := (t_data t)[?p := (t_data b ! ?p @ map ucast (take (nat j) vs)) @ [ucast (vs ! nat j)]]\<rparr>"
    have "?body j t = Inr ?t'" by (simp only: buf v and_then_Inr)
    moreover have "?I (j + 1) ?t'" unfolding t tk by simp
    ultimately show "\<exists>t'. ?body j t = Inr t' \<and> ?I (j + 1) t'" by blast
  qed
  then have "for_range 0 sz ?body ?b1 =
      Inr (?b1\<lparr>t_data := (t_data b)[?p := t_data b ! ?p @ map ucast (take (nat sz) vs)]\<rparr>)"
    by blast
  then show ?thesis
    using idx tid by (simp add: PushOneRow_def upd_chk_Inr)
qed

lemma sum_list_length_update:
  assumes "p < length xss"
  shows "sum_list (map length (xss[p := xss ! p @ ys])) = sum_list (map length xss) + length ys"
proof -
  have "xss = take p xss @ xss ! p # drop (Suc p) xss"
    using assms by (simp add: id_take_nth_drop)
  then have "xss[p := xss ! p @ ys] = take p xss @ (xss ! p @ ys) # drop (Suc p) xss"
    using assms by (metis upd_conv_take_nth_drop)
  then have "sum_list (map length (xss[p := xss ! p @ ys])) =
      sum_list (map length (take p xss)) + (length (xss ! p) + length ys) +
      sum_list (map length (drop (Suc p) xss))"
    by simp
  moreover have "sum_list (map length xss) =
      sum_list (map length (take p xss)) + length (xss ! p) + sum_list (map length (drop (Suc p) xss))"
    using assms by (subst id_take_nth_drop[of p xss]) simp_all
  ultimately show ?thesis by simp
qed

text \<open>One valid call of \<open>PushOneRow\<close>: what it returns, as far as the row index goes.\<close>

lemma PushOneRow_Inr:
  fixes b :: "'a::len word MultiValSparseBin"
  assumes idx: "0 \<le> idx" "idx + 1 < int (length (row_ptr b))"
    and sz: "0 \<le> sz" "sz \<le> int (length vs)"
    and tid: "0 \<le> tid" "tid \<le> int (length (t_data b))"
  shows "\<exists>b'. PushOneRow b tid idx vs sz = Inr b' \<and>
     row_ptr b' = (row_ptr b)[nat (idx + 1) := sz] \<and>
     num_data b' = num_data b \<and> num_bin b' = num_bin b \<and>
     estimate_element_per_row b' = estimate_element_per_row b \<and>
     length (t_data b') = length (t_data b) \<and>
     stored b' = stored b + nat sz"
proof (cases "tid = 0")
  case True
  show ?thesis
    unfolding True PushOneRow_first_thread[OF idx sz] using sz by (simp add: stored_def)
next
  case False
  then have t: "1 \<le> tid" using tid by simp
  have p: "nat (tid - 1) < length (t_data b)" using t tid by simp
  show ?thesis
    unfolding PushOneRow_other_thread[OF idx sz t tid(2)]
    using sz by (simp add: stored_def sum_list_length_update[OF p])
qed

lemma sum_list_update_int:
  fixes xs :: "int list"
  assumes "k < length xs"
  shows "sum_list (xs[k := x]) = sum_list xs - xs ! k + x"
proof -
  have "sum_list (take k xs @ xs ! k # drop (Suc k) xs) = sum_list xs"
    using assms by (simp only: id_take_nth_drop[symmetric])
  moreover have "xs[k := x] = take k xs @ x # drop (Suc k) xs"
    using assms by (rule upd_conv_take_nth_drop)
  ultimately show ?thesis by simp
qed

lemma push_size_sum_nonneg:
  "\<forall>c\<in>set calls. push_ok nt n c \<Longrightarrow> 0 \<le> sum_list (map push_size calls)"
  by (induction calls) (auto simp: push_ok_def)

text \<open>A run of valid calls on rows that are still empty, each row at most once.\<close>

lemma push_rows_Inr:
  fixes b :: "'a::len word MultiValSparseBin"
  assumes len: "length (row_ptr b) = nat n + 1"
    and ok: "\<forall>c\<in>set calls. push_ok nt n c"
    and nt: "nt \<le> int (length (t_data b)) + 1"
    and dist: "distinct (map push_row calls)"
    and zero: "\<forall>c\<in>set calls. row_ptr b ! nat (push_row c + 1) = 0"
  shows "\<exists>b'. push_rows b calls = Inr b' \<and>
     num_data b' = num_data b \<and> num_bin b' = num_bin b \<and>
     estimate_element_per_row b' = estimate_element_per_row b \<and>
     length (t_data b') = length (t_data b) \<and> length (row_ptr b') = length (row_ptr b) \<and>
     stored b' = stored b + nat (sum_list (map push_size calls)) \<and>
     sum_list (row_ptr b') = sum_list (row_ptr b) + sum_list (map push_size calls) \<and>
     (\<forall>c\<in>set calls. row_ptr b' ! nat (push_row c + 1) = push_size c) \<and>
     (\<forall>j. j \<notin> (\<lambda>c. nat (push_row c + 1)) ` set calls \<longrightarrow> row_ptr b' ! j = row_ptr b ! j)"
  using assms
proof (induction calls arbitrary: b)
  case Nil
  then show ?case by simp
next
  case (Cons c calls)
  let ?k = "nat (push_row c + 1)"
  have c: "push_ok nt n c" using Cons.prems(2) by simp
  then have row: "0 \<le> push_row c" "push_row c < n" and size: "0 \<le> push_size c"
    "push_size c \<le> int (length (fst (snd (snd c))))" and tid: "0 \<le> fst c" "fst c < nt"
    by (auto simp: push_ok_def)
  have k: "?k < length (row_ptr b)" using row Cons.prems(1) by simp
  have i1: "push_row c + 1 < int (length (row_ptr b))" using row Cons.prems(1) by simp
  have t1: "fst c \<le> int (length (t_data b))" using tid Cons.prems(3) by simp
  obtain b1 where p: "PushOneRow b (fst c) (push_row c) (fst (snd (snd c))) (push_size c) = Inr b1"
    and rp1: "row_ptr b1 = (row_ptr b)[?k := push_size c]"
    and same1: "num_data b1 = num_data b" "num_bin b1 = num_bin b"
      "estimate_element_per_row b1 = estimate_element_per_row b"
      "length (t_data b1) = length (t_data b)"
    and st1: "stored b1 = stored b + nat (push_size c)"
    using PushOneRow_Inr[OF row(1) i1 size tid(1) t1] by blast
  have other: "?k \<noteq> nat (push_row c' + 1)" if "c' \<in> set calls" for c'
  proof -
    have "push_row c \<notin> push_row ` set calls" using Cons.prems(4) by simp
    then have "push_row c' \<noteq> push_row c" using that by (metis imageI)
    moreover have "0 \<le> push_row c'" using Cons.prems(2) that by (auto simp: push_ok_def)
    ultimately show ?thesis using row by simp
  qed
  have zero1: "\<forall>c'\<in>set calls. row_ptr b1 ! nat (push_row c' + 1) = 0"
    using Cons.prems(5) other by (simp add: rp1)
  obtain b' where r: "push_rows b1 calls = Inr b'"
    and same: "num_data b' = num_data b1" "num_bin b' = num_bin b1"
      "estimate_element_per_row b' = estimate_element_per_row b1"
      "length (t_data b') = length (t_data b1)" "length (row_ptr b') = length (row_ptr b1)"
    and st: "stored b' = stored b1 + nat (sum_list (map push_size calls))"
    and sm: "sum_list (row_ptr b') = sum_list (row_ptr b1) + sum_list (map push_size calls)"
    and pushed: "\<forall>c'\<in>set calls. row_ptr b' ! nat (push_row c' + 1) = push_size c'"
    and rest: "\<forall>j. j \<notin> (\<lambda>c. nat (push_row c + 1)) ` set calls \<longrightarrow> row_ptr b' ! j = row_ptr b1 ! j"
    using Cons.IH[of b1] Cons.prems(1,2,3,4) zero1 same1 rp1 by auto
  have "push_rows b (c # calls) = Inr b'"
    using p r by (simp add: push_row_def push_size_def)
  moreover have "stored b' = stored b + nat (sum_list (map push_size (c # calls)))"
    using st st1 size(1) push_size_sum_nonneg[of calls nt n] Cons.prems(2)
    by (simp add: nat_add_distrib)
  moreover have "sum_list (row_ptr b') = sum_list (row_ptr b) + sum_list (map push_size (c # calls))"
    using sm rp1 sum_list_update_int[OF k, of "push_size c"] Cons.prems(5) by simp
  moreover have "row_ptr b' ! ?k = push_size c"
  proof -
    have "?k \<notin> (\<lambda>c. nat (push_row c + 1)) ` set calls" using other by auto
    then have "row_ptr b' ! ?k = row_ptr b1 ! ?k" using rest by blast
    then show ?thesis using rp1 k by simp
  qed
  moreover have "row_ptr b' ! j = row_ptr b ! j"
    if "j \<notin> (\<lambda>c. nat (push_row c + 1)) ` set (c # calls)" for j
  proof -
    have "?k \<noteq> j" "j \<notin> (\<lambda>c. nat (push_row c + 1)) ` set calls" using that by auto
    then show ?thesis using rest rp1 by simp
  qed
  ultimately show ?case using same same1 pushed rp1 by auto
qed

text \<open>
  The first loop of \<open>MoveData\<close> turns the counts into their running sums, when these
  are in the range of \<open>data_size_t\<close>.
\<close>

lemma prefix_sum_loop:
  fixes rp :: "int list"
  assumes len: "length rp = nat n + 1" and n: "0 \<le> n"
    and bound: "\<forall>j\<le>nat n. in_int (sum_list (take (Suc j) rp))"
  shows "\<exists>rp'. for_range 0 n (\<lambda>i rp.
          and_then (nth_chk rp (i + 1)) (\<lambda>x.
          and_then (nth_chk rp i) (\<lambda>y.
          and_then (int_add x y) (\<lambda>z. upd_chk rp (i + 1) z)))) rp = Inr rp' \<and>
       length rp' = length rp \<and> (\<forall>j\<le>nat n. rp' ! j = sum_list (take (Suc j) rp))"
proof -
  let ?body = "\<lambda>i (rp :: int list).
          and_then (nth_chk rp (i + 1)) (\<lambda>x.
          and_then (nth_chk rp i) (\<lambda>y.
          and_then (int_add x y) (\<lambda>z. upd_chk rp (i + 1) z)))"
  let ?I = "\<lambda>k r. length r = length rp \<and> (\<forall>j\<le>nat k. r ! j = sum_list (take (Suc j) rp)) \<and>
                (\<forall>j. nat k < j \<and> j < length rp \<longrightarrow> r ! j = rp ! j)"
  have init: "?I 0 rp"
  proof -
    have "rp \<noteq> []" using len by auto
    then have "sum_list (take (Suc 0) rp) = rp ! 0" by (cases rp) simp_all
    then show ?thesis by simp
  qed
  have step: "\<exists>t'. ?body i t = Inr t' \<and> ?I (i + 1) t'"
    if i: "0 \<le> i" "i < n" and t: "?I i t" for i and t :: "int list"
  proof -
    let ?k = "nat i"
    have k: "Suc ?k < length rp" "nat (i + 1) = Suc ?k" using i len by simp_all
    have a: "nth_chk t (i + 1) = Inr (rp ! Suc ?k)"
      using i k t by (simp add: nth_chk_Inr)
    have b: "nth_chk t i = Inr (sum_list (take (Suc ?k) rp))"
      using i k t by (simp add: nth_chk_Inr)
    let ?t' = "t[Suc ?k := rp ! Suc ?k + sum_list (take (Suc ?k) rp)]"
    have c: "upd_chk t (i + 1) (rp ! Suc ?k + sum_list (take (Suc ?k) rp)) = Inr ?t'"
      using i k t by (simp add: upd_chk_Inr)
    have s: "sum_list (take (Suc (Suc ?k)) rp) = rp ! Suc ?k + sum_list (take (Suc ?k) rp)"
      using k(1) by (simp add: take_Suc_conv_app_nth[of "Suc ?k"])
    have "Suc ?k \<le> nat n" using i by simp
    then have "in_int (sum_list (take (Suc (Suc ?k)) rp))" using bound by blast
    then have z: "int_add (rp ! Suc ?k) (sum_list (take (Suc ?k) rp)) =
        Inr (rp ! Suc ?k + sum_list (take (Suc ?k) rp))"
      unfolding s by (rule int_add_Inr)
    have res: "?body i t = Inr ?t'" by (simp only: a b z c and_then_Inr)
    have "?t' ! j = sum_list (take (Suc j) rp)" if "j \<le> Suc ?k" for j
    proof (cases "j = Suc ?k")
      case True
      then show ?thesis using k t s by simp
    next
      case False
      then have "j \<le> ?k" using that by simp
      then show ?thesis using t False by simp
    qed
    moreover have "?t' ! j = rp ! j" if "Suc ?k < j" "j < length rp" for j
      using that t by simp
    ultimately have "?I (i + 1) ?t'" using t k by simp
    then show ?thesis using res by blast
  qed
  have "\<exists>s'. for_range 0 n ?body rp = Inr s' \<and> ?I n s'"
  proof (rule for_range_invariant[where I = ?I, OF init n])
    fix j and t :: "int list" assume "0 \<le> j" "j < n" "?I j t"
    then show "\<exists>t'. ?body j t = Inr t' \<and> ?I (j + 1) t'" by (rule step)
  qed
  then show ?thesis by blast
qed

lemma sum_list_take_le: "sum_list (take k (xs :: nat list)) \<le> sum_list xs"
proof -
  have "sum_list xs = sum_list (take k xs) + sum_list (drop k xs)"
    by (metis append_take_drop_id sum_list_append)
  then show ?thesis by simp
qed

lemma copy_n_length: "copy_n src cnt dst off = Inr d \<Longrightarrow> length d = length dst"
  by (auto simp: copy_n_def split: if_splits)

text \<open>
  \<open>MoveData<false>\<close> after loading: the counts of \<open>row_ptr_\<close> add up to the number of
  stored values, so every buffer fits into the resized \<open>data_\<close>.
\<close>

lemma MoveData_load:
  fixes b :: "'a::len word MultiValSparseBin"
  assumes n: "0 \<le> num_data b" and len: "length (row_ptr b) = nat (num_data b) + 1"
    and total: "sum_list (row_ptr b) = int (stored b)"
    and bound: "\<forall>j\<le>nat (num_data b). in_int (sum_list (take (Suc j) (row_ptr b)))"
  shows "\<exists>b'. MoveData False [] b = Inr b' \<and>
     num_data b' = num_data b \<and> num_bin b' = num_bin b \<and>
     estimate_element_per_row b' = estimate_element_per_row b \<and>
     length (row_ptr b') = length (row_ptr b) \<and>
     (\<forall>j\<le>nat (num_data b). row_ptr b' ! j = sum_list (take (Suc j) (row_ptr b))) \<and>
     length (data b') = stored b"
proof -
  obtain rp where first: "for_range 0 (num_data b) (\<lambda>i rp.
          and_then (nth_chk rp (i + 1)) (\<lambda>x.
          and_then (nth_chk rp i) (\<lambda>y.
          and_then (int_add x y) (\<lambda>z. upd_chk rp (i + 1) z)))) (row_ptr b) = Inr rp"
    and lrp: "length rp = length (row_ptr b)"
    and sums: "\<forall>j\<le>nat (num_data b). rp ! j = sum_list (take (Suc j) (row_ptr b))"
    using prefix_sum_loop[OF len n bound] by blast
  have tot: "rp ! nat (num_data b) = int (stored b)"
    using sums len total by simp
  have tchk: "nth_chk rp (num_data b) = Inr (int (stored b))"
    using n lrp len tot by (simp add: nth_chk_Inr)
  show ?thesis
  proof (cases "t_data b = []")
    case True
    then have "MoveData False [] b = Inr (b\<lparr>row_ptr := rp\<rparr>)"
      by (simp add: MoveData_def first)
    then show ?thesis using lrp sums True by (simp add: stored_def)
  next
    case False
    let ?T = "length (t_data b)"
    let ?po = "\<lambda>j. length (data b) + sum_list (map length (take j (t_data b)))"
    let ?obody = "\<lambda>tid (offsets :: nat list).
                 and_then (if False then nth_chk [] (tid + 1)
                           else and_then (nth_chk (t_data b) tid) (\<lambda>buf. Inr (length buf)))
                   (\<lambda>n. Inr (offsets @ [last offsets + n]))"
    let ?J = "\<lambda>k (offs :: nat list). length offs = nat k + 1 \<and> (\<forall>j\<le>nat k. offs ! j = ?po j)"
    have "\<exists>offs. for_range 0 (int ?T - 1) ?obody [length (data b)] = Inr offs \<and> ?J (int ?T - 1) offs"
    proof (rule for_range_invariant[where I = ?J])
      show "?J 0 [length (data b)]" by simp
      show "0 \<le> int ?T - 1" using False by (cases "t_data b") simp_all
    next
      fix j and t :: "nat list"
      assume j: "0 \<le> j" "j < int ?T - 1" and t: "?J j t"
      have nj: "nat j < ?T" using j by simp
      have r: "nth_chk (t_data b) j = Inr (t_data b ! nat j)" using j by (simp add: nth_chk_Inr)
      have "t \<noteq> []" using t by auto
      then have l: "last t = ?po (nat j)" using t by (simp add: last_conv_nth)
      have s: "?po (Suc (nat j)) = ?po (nat j) + length (t_data b ! nat j)"
        using nj by (simp add: take_Suc_conv_app_nth)
      let ?t' = "t @ [last t + length (t_data b ! nat j)]"
      have res: "?obody j t = Inr ?t'" by (simp only: r if_False and_then_Inr)
      have sj: "nat (j + 1) = Suc (nat j)" using j by simp
      have "?t' ! i = ?po i" if "i \<le> Suc (nat j)" for i
      proof (cases "i = Suc (nat j)")
        case True
        then show ?thesis using t l s by (simp add: nth_append)
      next
        case False
        then have "i \<le> nat j" using that by simp
        then show ?thesis using t by (simp add: nth_append)
      qed
      then have "?J (j + 1) ?t'" using t by (simp add: sj)
      then show "\<exists>t'. ?obody j t = Inr t' \<and> ?J (j + 1) t'" using res by blast
    qed
    then obtain offs where offs: "for_range 0 (int ?T - 1) ?obody [length (data b)] = Inr offs"
      and ol: "length offs = ?T" and ov: "\<forall>j<?T. offs ! j = ?po j"
      using False by (cases "t_data b") auto
    let ?b0 = "b\<lparr>row_ptr := rp, data := resize_vec (data b) (nat (int (stored b))) 0\<rparr>"
    let ?cbody = "\<lambda>tid (b' :: 'a word MultiValSparseBin).
                and_then (nth_chk (t_data b') tid) (\<lambda>buf.
                and_then (if False then nth_chk [] (tid + 1) else Inr (length buf)) (\<lambda>cnt.
                and_then (nth_chk offs tid) (\<lambda>off.
                and_then (copy_n buf cnt (data b') off) (\<lambda>d.
                  Inr (b'\<lparr>data := d\<rparr>)))))"
    let ?K = "\<lambda>(k::int) t. num_data t = num_data b \<and> num_bin t = num_bin b \<and>
        estimate_element_per_row t = estimate_element_per_row b \<and> row_ptr t = rp \<and>
        t_data t = t_data b \<and> length (data t) = stored b"
    have "\<exists>s'. for_range 0 (int ?T) ?cbody ?b0 = Inr s' \<and> ?K (int ?T) s'"
    proof (rule for_range_invariant[where I = ?K])
      show "?K 0 ?b0" by simp
      show "0 \<le> int ?T" by simp
    next
      fix j and t :: "'a word MultiValSparseBin"
      assume j: "0 \<le> j" "j < int ?T" and t: "?K j t"
      have nj: "nat j < ?T" using j by simp
      let ?buf = "t_data b ! nat j"
      have r1: "nth_chk (t_data t) j = Inr ?buf" using j t by (simp add: nth_chk_Inr)
      have r2: "nth_chk offs j = Inr (?po (nat j))" using j ol ov nj by (simp add: nth_chk_Inr)
      have "?po (nat j) + length ?buf = ?po (Suc (nat j))"
        using nj by (simp add: take_Suc_conv_app_nth)
      also have "\<dots> \<le> stored b"
        unfolding stored_def using sum_list_take_le[of "Suc (nat j)" "map length (t_data b)"]
        by (simp add: take_map)
      finally have fits: "?po (nat j) + length ?buf \<le> length (data t)" using t by simp
      then obtain d where r3: "copy_n ?buf (length ?buf) (data t) (?po (nat j)) = Inr d"
        by (simp add: copy_n_def)
      have res: "?cbody j t = Inr (t\<lparr>data := d\<rparr>)"
        by (simp only: r1 r2 r3 if_False and_then_Inr)
      have "?K (j + 1) (t\<lparr>data := d\<rparr>)" using t copy_n_length[OF r3] by simp
      then show "\<exists>t'. ?cbody j t = Inr t' \<and> ?K (j + 1) t'" using res by blast
    qed
    then obtain b' where copy: "for_range 0 (int ?T) ?cbody ?b0 = Inr b'" and K: "?K (int ?T) b'"
      by blast
    have "MoveData False [] b = Inr b'"
      unfolding MoveData_def first using False offs tchk copy by simp
    then show ?thesis using K lrp sums by simp
  qed
qed

lemma sum_list_take_mono:
  fixes xs :: "int list"
  assumes "\<forall>x\<in>set xs. 0 \<le> x" "i \<le> j"
  shows "sum_list (take i xs) \<le> sum_list (take j xs)"
proof -
  have "take j xs = take i xs @ take (j - i) (drop i xs)"
    using assms(2) by (metis le_add_diff_inverse take_add)
  moreover have "0 \<le> sum_list (take (j - i) (drop i xs))"
    using assms(1) by (intro sum_list_nonneg) (auto dest: in_set_takeD in_set_dropD)
  ultimately show ?thesis by simp
qed

subsection \<open>Copying sub-features\<close>







































subsection \<open>The examples of the sub-feature copy\<close>




lemma CreateLike_rows_1024: "CreateLike exact id 1 rows_1024 4 1 (Finite 1) = Inr narrow_1024"
proof -
  have e: "estimate_num_data exact 1024 (Finite (3 / 1024)) = Inr 4"
    by (simp add: estimate_num_data_exact to_data_size_Inr INT_MAX_def)
  have c: "(MultiValSparseBin_ctor exact 1 1024 4 (Finite (3 / 1024)) :: error + 8 word MultiValSparseBin) =
     Inr \<lparr> num_data = 1024, num_bin = 4, estimate_element_per_row = Finite (3 / 1024),
           data = [], row_ptr = replicate 1025 0, t_data = [] \<rparr>"
    using MultiValSparseBin_ctor_Inr[where e = 4 and n = 1024 and num_threads = 1 and rnd = exact
        and estimate = "Finite (3 / 1024)" and nb = 4]
    by (simp add: e INT_MAX_def)
  have r4: "replicate 4 (0 :: 8 word) = [0, 0, 0, 0]" by (simp add: replicate_num)
  show ?thesis
    by (simp add: CreateLike_def rows_1024_def double_mul_def c e int_div_def
        ReSizeForSubFeature_def resize_vec_def r4 narrow_1024_def)
qed





subsection \<open>The claims on the histogram\<close>

text \<open>
  Claim C1. On a finalized structure, for the rows \<open>[start, end)\<close> taken directly or
  through \<open>data_indices\<close>, with or without hessians, and with or without the
  prefetching loop, a call that stays inside its arrays, on bins below \<open>2^30\<close> (their
  doubled index fits an \<open>int\<close>), adds, for every active row \<open>r\<close> and every value \<open>v\<close>
  of the slice of \<open>r\<close>, \<open>gradients[r]\<close> to \<open>out[2v]\<close> and \<open>hessians[r]\<close> (or 1 without
  hessians) to \<open>out[2v + 1]\<close>: every entry ends as its old value with these
  contributions added to it one after the other by the addition of the program, in
  the order of the rows and of the values in a row. This holds for every addition,
  rounding or exact. The four overloads are the instances of
  \<open>ConstructHistogramInner\<close> at their flags. At the three example rows with the
  gradients \<open>1, 2, 3\<close>, the hessians \<open>0.5\<close> and a zeroed histogram of 16 entries, where
  no addition rounds, the result is \<open>3\<close> and \<open>0.5\<close> at 2 and 3, \<open>1\<close> and \<open>0.5\<close> at 6 and
  7 and at 14 and 15, and zero elsewhere.
\<close>

theorem ConstructHistogram_accumulates:
  fixes b :: "'a::len word MultiValSparseBin" and add :: "'h \<Rightarrow> 's::one \<Rightarrow> 'h"
  assumes "histogram_call_ok b use_indices use_hessians data_indices start end' gradients hessians out"
  shows "ConstructHistogramInner add b use_indices use_prefetch use_hessians data_indices start end'
           gradients hessians out =
         Inr (map (\<lambda>e. foldl add (out ! e)
                (contributions b (active_rows use_indices data_indices start end') gradients
                  use_hessians hessians e)) [0..<length out])"
proof -
  obtain out' where r: "ConstructHistogramInner add b use_indices use_prefetch use_hessians data_indices
        start end' gradients hessians out = Inr out'"
    and len: "length out' = length out"
    and nth: "\<forall>e<length out. out' ! e = foldl add (out ! e)
            (contributions b (active_rows use_indices data_indices start end') gradients use_hessians hessians e)"
    using ConstructHistogramInner_nth[OF assms] by blast
  have "out' = map (\<lambda>e. foldl add (out ! e)
                (contributions b (active_rows use_indices data_indices start end') gradients
                  use_hessians hessians e)) [0..<length out]"
    using len nth by (intro nth_equalityI) simp_all
  then show ?thesis using r by simp
qed

theorem ConstructHistogram_accumulates_witness:
  "histogram_call_ok three_rows False True [] 0 3 [1, 2, 3 :: real] [1/2, 1/2, 1/2]
     (replicate 16 (0::real)) \<and>
   ConstructHistogram_hessians (+) three_rows 0 3 [1, 2, 3 :: real] [1/2, 1/2, 1/2] (replicate 16 0) =
     Inr [0, 0, 3, 1/2, 0, 0, 1, 1/2, 0, 0, 0, 0, 0, 0, 1, 1/2 :: real]"
proof -
  have ok: "histogram_call_ok three_rows False True [] 0 3 [1, 2, 3 :: real] [1/2, 1/2, 1/2]
      (replicate 16 (0::real))"
    by (simp add: histogram_call_ok_def finalized_def active_rows_def three_rows_def)
  have rows: "active_rows False [] 0 3 = [0, 1, 2]"
    by (simp add: active_rows_def upto.simps)
  have v: "row_values three_rows 0 = [3, 7]" "row_values three_rows 1 = []"
    "row_values three_rows 2 = [1]"
    by (simp_all add: row_values_def three_rows_def)
  have up: "[0..<length (replicate 16 (0::real))] = [0, 1, 2, 3, 4, 5, 6, 7, 8, 9, 10, 11, 12, 13, 14, 15]"
    by (simp add: upt_conv_Cons)
  show ?thesis
    using ok ConstructHistogram_accumulates[OF ok, where add = "(+)" and use_prefetch = False]
    unfolding ConstructHistogram_hessians_def rows up contributions_def
    by (simp add: v entry_terms_def hessian_of_def)
qed

text \<open>
  Claim C4. The source is another structure than the destination; it is finalized, the
  row ids lie in it, and the destination has been resized to as many rows as there are
  ids; its \<open>row_ptr_[0]\<close> is 0, as the constructor leaves it and no operation on a valid
  row changes it. The numbers are valid for their types: the fields of the source and
  the number of ids are in the range of \<open>data_size_t\<close>, the hint of the destination is
  one \<open>CopySubset\<close> can make room for, and the sums
  \<open>row_ptr_[i] + other_bin->row_ptr_[used_indices[i] + 1]\<close> stay in the range: the copied
  values and the values of the source together are at most \<open>INT_MAX\<close>. Then
  \<open>CopySubset\<close> returns a finalized structure of that many rows whose row \<open>i\<close> holds the
  values of the source row \<open>used_indices[i]\<close> unchanged, and with the ids
  \<open>0, \<dots>, num_data - 1\<close> the offsets and the values of the destination are those of the
  source.
\<close>

theorem CopySubset_copies_rows:
  fixes b other_bin :: "'v MultiValSparseBin"
  assumes fin: "finalized other_bin" and rep: "representable other_bin"
    and ids: "\<forall>u\<in>set used_indices. 0 \<le> u \<and> u < num_data other_bin"
    and n: "num_used_indices = int (length used_indices)" "num_used_indices < INT_MAX"
    and sz: "num_data b = num_used_indices"
    and base: "row_ptr b \<noteq> [] \<longrightarrow> row_ptr b ! 0 = 0"
    and hint: "reservation_ok rnd (num_data b) (estimate_element_per_row b)"
    and fits: "int (length (concat (map (row_values other_bin) used_indices))) +
                 int (length (data other_bin)) \<le> INT_MAX"
  shows "\<exists>b'. CopySubset rnd b (Other other_bin) used_indices num_used_indices = Inr b' \<and>
     finalized b' \<and> num_data b' = num_used_indices \<and>
     (\<forall>i. 0 \<le> i \<and> i < num_used_indices \<longrightarrow>
        row_values b' i = row_values other_bin (used_indices ! nat i)) \<and>
     (used_indices = [0..num_data other_bin - 1] \<longrightarrow>
        row_ptr b' = row_ptr other_bin \<and> data b' = data other_bin)"
proof -
  let ?rv = "row_values other_bin"
  let ?xss = "map ?rv used_indices"
  let ?len = "length used_indices"
  obtain e where e: "estimate_num_data rnd (num_data b) (estimate_element_per_row b) = Inr e" "0 \<le> e"
    using hint unfolding reservation_ok_def
    by (cases "estimate_num_data rnd (num_data b) (estimate_element_per_row b)") simp_all
  have sz': "num_data b = int ?len" "int ?len < INT_MAX" using sz n by simp_all
  obtain b' where r: "CopySubset rnd b (Other other_bin) used_indices num_used_indices = Inr b'"
    and nd: "num_data b' = num_used_indices"
    and d: "data b' = concat ?xss"
    and l: "length (row_ptr b') = ?len + 1"
    and rp: "\<forall>j\<le>?len. row_ptr b' ! j = int (length (concat (take j ?xss)))"
    using CopySubset_result[OF fin rep ids sz' base e fits] n sz by (auto simp: take_map)
  have sorted: "sorted (row_ptr b')"
    unfolding sorted_iff_nth_mono using rp l
    by (auto intro!: length_concat_take_mono)
  have last: "last (row_ptr b') = int (length (data b'))"
  proof -
    have "row_ptr b' \<noteq> []" using l by auto
    then have "last (row_ptr b') = row_ptr b' ! ?len" using l by (simp add: last_conv_nth)
    then show ?thesis using rp d by simp
  qed
  have fin': "finalized b'"
    using nd n(1) l rp sorted last by (simp add: finalized_def)
  have rows: "row_values b' i = ?rv (used_indices ! nat i)" if i: "0 \<le> i" "i < num_used_indices" for i
  proof -
    have ni: "nat i < ?len" using i n by simp
    have s: "nat (i + 1) = Suc (nat i)" using i by simp
    have a: "row_ptr b' ! nat i = int (length (concat (take (nat i) ?xss)))"
      using rp ni by simp
    have b: "row_ptr b' ! Suc (nat i) = int (length (concat (take (nat i) ?xss)) + length (?xss ! nat i))"
      using rp ni length_concat_take_Suc[of "nat i" ?xss] by simp
    have "row_values b' i = take (length (?xss ! nat i)) (drop (length (concat (take (nat i) ?xss))) (concat ?xss))"
      unfolding row_values_def Let_def s a b d by simp
    also have "\<dots> = ?xss ! nat i" using ni by (intro concat_slice) simp
    finally show ?thesis using ni by simp
  qed
  have ident: "row_ptr b' = row_ptr other_bin \<and> data b' = data other_bin"
    if u: "used_indices = [0..num_data other_bin - 1]"
  proof -
    have N: "0 \<le> num_data other_bin" "length (row_ptr other_bin) = nat (num_data other_bin) + 1"
      using fin by (auto simp: finalized_def)
    have len: "?len = nat (num_data other_bin)" using u by simp
    have pre: "concat (take j ?xss) = take (nat (row_ptr other_bin ! j)) (data other_bin)
        \<and> 0 \<le> row_ptr other_bin ! j \<and> row_ptr other_bin ! j \<le> int (length (data other_bin))"
      if "j \<le> ?len" for j
    proof -
      have j: "int j \<le> num_data other_bin" using that len N(1) by linarith
      have "take j ?xss = map ?rv [0..int j - 1]"
        unfolding u take_map by (simp only: take_upto_prefix[OF j])
      then show ?thesis using finalized_prefix[OF fin j] by simp
    qed
    have "row_ptr b' ! j = row_ptr other_bin ! j" if "j < length (row_ptr b')" for j
    proof -
      have j: "j \<le> ?len" using that l by simp
      show ?thesis using rp j pre[OF j] by (simp add: min_def) linarith
    qed
    then have "row_ptr b' = row_ptr other_bin"
      using l N len by (intro nth_equalityI) simp_all
    moreover have "data b' = data other_bin"
      using pre[of ?len] d finalized_last[OF fin] len by simp
    ultimately show ?thesis ..
  qed
  show ?thesis using r fin' nd rows ident by blast
qed

theorem CopySubset_copies_rows_witness:
  "finalized three_rows \<and> representable three_rows \<and>
   (0::int) \<le> 0 \<and> 0 < num_data three_rows \<and> 1 < num_data three_rows \<and>
   2 < num_data three_rows \<and> (3::int) = int (length [0, 1, 2 :: int]) \<and> 3 < INT_MAX \<and>
   num_data empty_three = 3 \<and> row_ptr empty_three ! 0 = 0 \<and>
   reservation_ok exact (num_data empty_three) (estimate_element_per_row empty_three) \<and>
   int (length (concat (map (row_values three_rows) [0, 1, 2]))) + int (length (data three_rows))
     \<le> INT_MAX \<and>
   CopySubset exact empty_three (Other three_rows) [0, 1, 2] 3 =
     Inr \<lparr> num_data = 3, num_bin = 8, estimate_element_per_row = Finite 5,
           data = data three_rows, row_ptr = row_ptr three_rows, t_data = [] \<rparr>"
proof -
  have fin: "finalized three_rows" by (simp add: finalized_def three_rows_def)
  have rep: "representable three_rows"
    by (simp add: representable_def three_rows_def in_int_def INT_MAX_def)
  have ids: "\<forall>u\<in>set [0, 1, 2]. 0 \<le> u \<and> u < num_data three_rows" by (simp add: three_rows_def)
  have n: "(3::int) = int (length [0, 1, 2 :: int])" "(3::int) < INT_MAX" by (simp_all add: INT_MAX_def)
  have sz: "num_data empty_three = 3" by (simp add: empty_three_def)
  have base: "row_ptr empty_three \<noteq> [] \<longrightarrow> row_ptr empty_three ! 0 = 0" by (simp add: empty_three_def)
  have hint: "reservation_ok exact (num_data empty_three) (estimate_element_per_row empty_three)"
    by (simp add: reservation_ok_def empty_three_def estimate_num_data_exact to_data_size_Inr INT_MAX_def)
  have fits: "int (length (concat (map (row_values three_rows) [0, 1, 2]))) +
      int (length (data three_rows)) \<le> INT_MAX"
    by (simp add: row_values_def three_rows_def INT_MAX_def)
  have u: "[0, 1, 2] = [0..num_data three_rows - 1]" by (simp add: three_rows_def upto.simps)
  obtain b' where r: "CopySubset exact empty_three (Other three_rows) [0, 1, 2] 3 = Inr b'"
    and s: "row_ptr b' = row_ptr three_rows" "data b' = data three_rows"
    using CopySubset_copies_rows[OF fin rep ids n sz base hint fits] u by blast
  have e: "estimate_num_data exact 3 (Finite 5) = Inr 22"
    by (simp add: estimate_num_data_exact to_data_size_Inr INT_MAX_def)
  have run: "CopySubset exact empty_three (Other three_rows) [0, 1, 2] 3 =
     Inr \<lparr> num_data = 3, num_bin = 8, estimate_element_per_row = Finite 5,
           data = [3, 7, 1], row_ptr = [0, 2, 2, 3], t_data = [] \<rparr>"
    by (simp add: CopySubset_def empty_three_def three_rows_def for_range_step for_range_stop
        nth_chk_def upd_chk_def resize_vec_def e reserve_def int_add_def int_sub_def
        in_int_def INT_MAX_def deref_def)
  have res: "CopySubset exact empty_three (Other three_rows) [0, 1, 2] 3 =
     Inr \<lparr> num_data = 3, num_bin = 8, estimate_element_per_row = Finite 5,
           data = data three_rows, row_ptr = row_ptr three_rows, t_data = [] \<rparr>"
  proof -
    have "b' = \<lparr> num_data = 3, num_bin = 8, estimate_element_per_row = Finite 5,
           data = [3, 7, 1], row_ptr = [0, 2, 2, 3], t_data = [] \<rparr>"
      using r run by simp
    then have "b' = \<lparr> num_data = 3, num_bin = 8, estimate_element_per_row = Finite 5,
           data = data three_rows, row_ptr = row_ptr three_rows, t_data = [] \<rparr>"
      by (simp add: three_rows_def)
    then show ?thesis using r by simp
  qed
  have rest: "(0::int) \<le> 0" "0 < num_data three_rows" "1 < num_data three_rows"
    "2 < num_data three_rows" "row_ptr empty_three ! 0 = 0"
    by (simp_all add: three_rows_def empty_three_def)
  show ?thesis
    by (intro conjI fin rep rest n sz hint fits res)
qed

text \<open>
  Claim C5. For a split point \<open>m\<close> between \<open>start\<close> and \<open>end\<close>, the calls over
  \<open>[start, m)\<close> and \<open>[m, end)\<close>, each into its own zeroed histogram, and the call over
  \<open>[start, end)\<close> into a zeroed histogram all return, and the third result is the
  entrywise sum of the first two (same selector and flags in the three calls, sums of
  exact reals).
\<close>
theorem ConstructHistogram_additive:
  fixes b :: "'a::len word MultiValSparseBin" and gradients hessians :: "real list"
  assumes ok: "histogram_call_ok b use_indices use_hessians data_indices start end' gradients hessians
                 (replicate n (0::real))"
    and m: "start \<le> m" "m \<le> end'"
  shows "\<exists>h1 h2.
     ConstructHistogramInner (+) b use_indices use_prefetch use_hessians data_indices start m
       gradients hessians (replicate n (0::real)) = Inr h1 \<and>
     ConstructHistogramInner (+) b use_indices use_prefetch use_hessians data_indices m end'
       gradients hessians (replicate n (0::real)) = Inr h2 \<and>
     ConstructHistogramInner (+) b use_indices use_prefetch use_hessians data_indices start end'
       gradients hessians (replicate n (0::real)) = Inr (map2 (+) h1 h2)"
proof -
  let ?z = "replicate n (0::real)"
  let ?acc = "\<lambda>s t e. accumulated b (active_rows use_indices data_indices s t) gradients use_hessians hessians e"
  note parts = histogram_call_ok_split[OF ok m]
  obtain h1 where r1: "ConstructHistogramInner (+) b use_indices use_prefetch use_hessians data_indices start m
       gradients hessians ?z = Inr h1" and l1: "length h1 = n"
    and n1: "\<forall>e<n. h1 ! e = ?acc start m e"
    using ConstructHistogramInner_exact[OF parts(1), where use_prefetch = use_prefetch] by auto
  obtain h2 where r2: "ConstructHistogramInner (+) b use_indices use_prefetch use_hessians data_indices m end'
       gradients hessians ?z = Inr h2" and l2: "length h2 = n"
    and n2: "\<forall>e<n. h2 ! e = ?acc m end' e"
    using ConstructHistogramInner_exact[OF parts(2), where use_prefetch = use_prefetch] by auto
  obtain h3 where r3: "ConstructHistogramInner (+) b use_indices use_prefetch use_hessians data_indices start end'
       gradients hessians ?z = Inr h3" and l3: "length h3 = n"
    and n3: "\<forall>e<n. h3 ! e = ?acc start end' e"
    using ConstructHistogramInner_exact[OF ok, where use_prefetch = use_prefetch] by auto
  have "h3 = map2 (+) h1 h2"
  proof (rule nth_equalityI)
    show "length h3 = length (map2 (+) h1 h2)" using l1 l2 l3 by simp
  next
    fix e assume "e < length h3"
    then have e: "e < n" using l3 by simp
    have "?acc start end' e = ?acc start m e + ?acc m end' e"
      by (simp add: active_rows_split[OF m] accumulated_append)
    then show "h3 ! e = map2 (+) h1 h2 ! e" using e n1 n2 n3 l1 l2 by simp
  qed
  then show ?thesis using r1 r2 r3 by blast
qed

theorem ConstructHistogram_additive_witness:
  "histogram_call_ok three_rows False True [] 0 3 [1, 2, 3 :: real] [1/2, 1/2, 1/2] (replicate 16 (0::real)) \<and>
   (0::int) \<le> 1 \<and> (1::int) \<le> 3 \<and>
   (\<exists>h1 h2.
     ConstructHistogram_hessians (+) three_rows 0 1 [1, 2, 3 :: real] [1/2, 1/2, 1/2] (replicate 16 (0::real)) = Inr h1 \<and>
     ConstructHistogram_hessians (+) three_rows 1 3 [1, 2, 3 :: real] [1/2, 1/2, 1/2] (replicate 16 (0::real)) = Inr h2 \<and>
     ConstructHistogram_hessians (+) three_rows 0 3 [1, 2, 3 :: real] [1/2, 1/2, 1/2] (replicate 16 (0::real)) =
       Inr (map2 (+) h1 h2))"
proof -
  have ok: "histogram_call_ok three_rows False True [] 0 3 [1, 2, 3 :: real] [1/2, 1/2, 1/2] (replicate 16 (0::real))"
    by (simp add: histogram_call_ok_def finalized_def active_rows_def three_rows_def)
  show ?thesis
    using ok ConstructHistogram_additive[OF ok, where m = 1 and use_prefetch = False]
    unfolding ConstructHistogram_hessians_def by simp
qed

text \<open>
  Claim C6. \<open>ConstructHistogram\<close> never clears or overwrites \<open>out\<close>: after a call
  that stays inside its arrays the histogram has its old length, every entry is its
  value before the call with the contributions of the call added to it one after the
  other by the addition of the program, whatever that addition rounds, and an entry
  \<open>2v\<close> or \<open>2v + 1\<close> whose bin \<open>v\<close> is in the slice of no processed row is unchanged.
  In the witness the histogram starts with 5 everywhere and the rows 2 and 0 are added
  without hessians, with exact sums.
\<close>
theorem ConstructHistogram_adds_to_previous:
  fixes b :: "'a::len word MultiValSparseBin" and add :: "'h \<Rightarrow> 's::one \<Rightarrow> 'h"
  assumes ok: "histogram_call_ok b use_indices use_hessians data_indices start end' gradients hessians out"
  shows "\<exists>out'. ConstructHistogramInner add b use_indices use_prefetch use_hessians data_indices start end'
           gradients hessians out = Inr out' \<and> length out' = length out \<and>
         (\<forall>e<length out. out' ! e = foldl add (out ! e)
            (contributions b (active_rows use_indices data_indices start end') gradients use_hessians hessians e)) \<and>
         (\<forall>e<length out.
            (\<forall>r\<in>set (active_rows use_indices data_indices start end').
               \<forall>v\<in>set (row_values b r). unat v \<noteq> e div 2) \<longrightarrow> out' ! e = out ! e)"
proof -
  let ?rows = "active_rows use_indices data_indices start end'"
  obtain out' where r: "ConstructHistogramInner add b use_indices use_prefetch use_hessians data_indices
        start end' gradients hessians out = Inr out'"
    and len: "length out' = length out"
    and nth: "\<forall>e<length out. out' ! e = foldl add (out ! e)
        (contributions b ?rows gradients use_hessians hessians e)"
    using ConstructHistogramInner_nth[OF ok] by blast
  have "out' ! e = out ! e"
    if "e < length out" "\<forall>r\<in>set ?rows. \<forall>v\<in>set (row_values b r). unat v \<noteq> e div 2" for e
    using nth that(1) contributions_untouched[OF that(2), where gradients = gradients and use_hessians = use_hessians and hessians = hessians] by simp
  then show ?thesis using r len nth by blast
qed

theorem ConstructHistogram_adds_to_previous_witness:
  "histogram_call_ok three_rows True False [2, 0] 0 2 [1, 2, 3 :: real] [] (replicate 16 (5::real)) \<and>
   (\<exists>out'. ConstructHistogram_indices (+) three_rows [2, 0] 0 2 [1, 2, 3 :: real] (replicate 16 5) = Inr out' \<and>
      length out' = 16 \<and> out' ! 2 = 8 \<and> out' ! 3 = 6 \<and> out' ! 6 = 6 \<and> out' ! 4 = 5 \<and> out' ! 5 = 5)"
proof -
  have ok: "histogram_call_ok three_rows True False [2, 0] 0 2 [1, 2, 3 :: real] [] (replicate 16 (5::real))"
    by (simp add: histogram_call_ok_def finalized_def active_rows_def three_rows_def upto.simps)
  have rows: "active_rows True [2, 0] 0 2 = [2, 0]"
    by (simp add: active_rows_def upto.simps)
  have v: "row_values three_rows 0 = [3, 7]" "row_values three_rows 2 = [1]"
    by (simp_all add: row_values_def three_rows_def)
  obtain out' where r: "ConstructHistogram_indices (+) three_rows [2, 0] 0 2 [1, 2, 3 :: real] (replicate 16 5) = Inr out'"
    and len: "length out' = 16"
    and nth: "\<forall>e<16. out' ! e = foldl (+) 5 (contributions three_rows [2, 0] [1, 2, 3 :: real] False [] e)"
    and same: "\<forall>e<16. (\<forall>r\<in>set [2, 0]. \<forall>v\<in>set (row_values three_rows r). unat v \<noteq> e div 2) \<longrightarrow> out' ! e = 5"
    using ConstructHistogram_adds_to_previous[OF ok, where add = "(+)" and use_prefetch = True]
    unfolding ConstructHistogram_indices_def rows by auto
  have a: "out' ! 2 = 8" "out' ! 3 = 6" "out' ! 6 = 6"
    using nth by (simp_all add: contributions_def v entry_terms_def hessian_of_def)
  have b: "out' ! 4 = 5" "out' ! 5 = 5"
    using same by (simp_all add: v)
  show ?thesis using ok r len a b by simp
qed

text \<open>
  Claim C7. With \<open>data_indices[i] = i\<close> for every \<open>i\<close> of \<open>[start, end)\<close>, the two
  overloads that take \<open>data_indices\<close>, which run the prefetching loop, return the same
  histogram as the two overloads over the plain range, which do not; the reads of the
  prefetching loop do not change the sums. The additions are the same and in the same
  order, so this holds for every addition, rounding or exact.
\<close>
theorem ConstructHistogram_identity_indices:
  fixes b :: "'a::len word MultiValSparseBin" and add :: "'h \<Rightarrow> 's::one \<Rightarrow> 'h"
  assumes ok: "histogram_call_ok b True True data_indices start end' gradients hessians out"
    and ident: "\<forall>i\<in>set [start..end' - 1]. data_indices ! nat i = i"
  shows "ConstructHistogram_indices_hessians add b data_indices start end' gradients hessians out =
           ConstructHistogram_hessians add b start end' gradients hessians out \<and>
         ConstructHistogram_indices add b data_indices start end' gradients out =
           ConstructHistogram add b start end' gradients out \<and>
         (\<exists>out'. ConstructHistogram_hessians add b start end' gradients hessians out = Inr out') \<and>
         (\<exists>out'. ConstructHistogram add b start end' gradients out = Inr out')"
proof -
  note rows = active_rows_identity[OF ident]
  note ok' = histogram_call_ok_identity[OF ok ident]
  note okn = histogram_call_ok_no_hessians[OF ok]
  note okn' = histogram_call_ok_no_hessians[OF ok']
  have "ConstructHistogram_indices_hessians add b data_indices start end' gradients hessians out =
           ConstructHistogram_hessians add b start end' gradients hessians out"
    unfolding ConstructHistogram_indices_hessians_def ConstructHistogram_hessians_def
      ConstructHistogramInner_fold[OF ok] ConstructHistogramInner_fold[OF ok'] rows ..
  moreover have "ConstructHistogram_indices add b data_indices start end' gradients out =
           ConstructHistogram add b start end' gradients out"
    unfolding ConstructHistogram_indices_def ConstructHistogram_def
      ConstructHistogramInner_fold[OF okn] ConstructHistogramInner_fold[OF okn'] rows ..
  moreover have "\<exists>out'. ConstructHistogram_hessians add b start end' gradients hessians out = Inr out'"
    unfolding ConstructHistogram_hessians_def ConstructHistogramInner_fold[OF ok'] by blast
  moreover have "\<exists>out'. ConstructHistogram add b start end' gradients out = Inr out'"
    unfolding ConstructHistogram_def ConstructHistogramInner_fold[OF okn'] by blast
  ultimately show ?thesis by blast
qed

theorem ConstructHistogram_identity_indices_witness:
  "histogram_call_ok three_rows True True [0, 1, 2] 0 3 [1, 2, 3 :: real] [1/2, 1/2, 1/2] (replicate 16 (0::real)) \<and>
   [0, 1, 2] ! nat 0 = (0::int) \<and> [0, 1, 2] ! nat 1 = (1::int) \<and> [0, 1, 2] ! nat 2 = (2::int) \<and>
   ConstructHistogram_indices_hessians (+) three_rows [0, 1, 2] 0 3 [1, 2, 3 :: real] [1/2, 1/2, 1/2] (replicate 16 (0::real)) =
     ConstructHistogram_hessians (+) three_rows 0 3 [1, 2, 3 :: real] [1/2, 1/2, 1/2] (replicate 16 (0::real)) \<and>
   ConstructHistogram_indices (+) three_rows [0, 1, 2] 0 3 [1, 2, 3 :: real] (replicate 16 (0::real)) =
     ConstructHistogram (+) three_rows 0 3 [1, 2, 3 :: real] (replicate 16 (0::real))"
proof -
  have ok: "histogram_call_ok three_rows True True [0, 1, 2] 0 3 [1, 2, 3 :: real] [1/2, 1/2, 1/2] (replicate 16 (0::real))"
    by (simp add: histogram_call_ok_def finalized_def active_rows_def three_rows_def upto.simps)
  have ident: "\<forall>i\<in>set [0..3 - 1]. [0, 1, 2] ! nat i = (i::int)"
    by (simp add: upto.simps)
  show ?thesis
    using ok ConstructHistogram_identity_indices[OF ok ident, where add = "(+)"] by simp
qed

subsection \<open>The claims on the density hint and on the block count\<close>

text \<open>
  Claim C8, as the code has it. \<open>CopySubset\<close> reads \<open>estimate_element_per_row_\<close> to
  size a reservation and never assigns it: after every call that returns, whether the
  source is another structure or the destination itself, the density hint is the one
  the destination had before. It is not derived from the copied data:
  copying the three example rows into a destination with the hint 5 leaves the hint 5,
  while three copied values in three rows give 1.
\<close>

theorem CopySubset_keeps_estimate:
  assumes "CopySubset rnd b full_bin used_indices num_used_indices = Inr b'"
  shows "estimate_element_per_row b' = estimate_element_per_row b"
  using assms unfolding CopySubset_def
  apply (clarsimp simp: and_then_eq_Inr split: if_splits)
  apply (erule for_range_preserves[where P = "\<lambda>t. estimate_element_per_row t = estimate_element_per_row b"])
   apply simp
  apply (auto simp: and_then_eq_Inr)
  done

theorem CopySubset_keeps_estimate_witness:
  "CopySubset exact (ReSize empty_three 2) (Other three_rows) [2, 0] 2 =
     Inr \<lparr> num_data = 2, num_bin = 8, estimate_element_per_row = Finite 5,
           data = [1, 3, 7], row_ptr = [0, 1, 3], t_data = [] \<rparr> \<and>
   estimate_element_per_row \<lparr> num_data = 2, num_bin = 8, estimate_element_per_row = Finite 5,
           data = [1, 3, 7 :: 8 word], row_ptr = [0, 1, 3], t_data = [] \<rparr> =
     estimate_element_per_row (ReSize empty_three 2)"
proof -
  have e: "estimate_num_data exact 2 (Finite 5) = Inr 15"
    by (simp add: estimate_num_data_exact to_data_size_Inr INT_MAX_def)
  have r: "CopySubset exact (ReSize empty_three 2) (Other three_rows) [2, 0] 2 =
     Inr \<lparr> num_data = 2, num_bin = 8, estimate_element_per_row = Finite 5,
           data = [1, 3, 7], row_ptr = [0, 1, 3], t_data = [] \<rparr>"
    by (simp add: CopySubset_def ReSize_def empty_three_def three_rows_def for_range_step for_range_stop
        nth_chk_def upd_chk_def resize_vec_def e reserve_def int_add_def int_sub_def in_int_def
        INT_MAX_def deref_def)
  show ?thesis using r CopySubset_keeps_estimate[OF r] by simp
qed

theorem CopySubset_estimate_counterexample:
  "CopySubset exact empty_three (Other three_rows) [0, 1, 2] 3 =
     Inr \<lparr> num_data = 3, num_bin = 8, estimate_element_per_row = Finite 5,
           data = [3, 7, 1], row_ptr = [0, 2, 2, 3], t_data = [] \<rparr> \<and>
   double_div exact 3 3 \<noteq> Finite 5"
proof -
  have e: "estimate_num_data exact 3 (Finite 5) = Inr 22"
    by (simp add: estimate_num_data_exact to_data_size_Inr INT_MAX_def)
  show ?thesis
    by (simp add: CopySubset_def empty_three_def three_rows_def for_range_step for_range_stop
        nth_chk_def upd_chk_def resize_vec_def double_div_def e reserve_def int_add_def int_sub_def
        in_int_def INT_MAX_def deref_def)
qed

text \<open>
  Claim C9, as the code has it. A structure constructed with zero rows and a finite
  hint, on any number of threads, and finalized with nothing pushed is an empty
  structure of valid shape: \<open>row_ptr_\<close> is \<open>[0]\<close>, \<open>data_\<close> is empty and the thread
  buffers are gone. Nothing guards the density hint: \<open>FinishLoad\<close> divides
  \<open>row_ptr_[0] = 0\<close> by \<open>num_data_ = 0\<close>, and the hint is left as the result of that
  division, which is no number, whatever the rounding.
\<close>

theorem FinishLoad_zero_rows:
  assumes "1 \<le> num_threads"
  shows "and_then (MultiValSparseBin_ctor rnd num_threads 0 nb (Finite x)) (FinishLoad rnd) =
     Inr \<lparr> num_data = 0, num_bin = nb, estimate_element_per_row = NonFinite,
           data = ([] :: 'a::len word list), row_ptr = [0], t_data = [] \<rparr>"
proof -
  let ?k = "nat (num_threads - 1)"
  let ?b = "\<lparr> num_data = 0, num_bin = nb, estimate_element_per_row = Finite x,
           data = ([] :: 'a word list), row_ptr = [0], t_data = replicate ?k [] \<rparr>"
  have "(MultiValSparseBin_ctor rnd num_threads 0 nb (Finite x) :: error + 'a word MultiValSparseBin) =
     Inr \<lparr> num_data = 0, num_bin = nb, estimate_element_per_row = Finite x,
           data = [], row_ptr = replicate (nat (0 + 1)) 0, t_data = replicate ?k [] \<rparr>"
    by (rule MultiValSparseBin_ctor_Inr[where e = 0])
      (simp_all add: assms estimate_num_data_no_rows INT_MAX_def)
  then have c: "MultiValSparseBin_ctor rnd num_threads 0 nb (Finite x) = Inr ?b"
    by simp
  have m: "MoveData False [] ?b = Inr ?b"
    by (rule MoveData_no_rows[where k = ?k]) simp_all
  show ?thesis
    unfolding c by (simp add: FinishLoad_def m nth_chk_def double_div_def)
qed

theorem FinishLoad_zero_rows_witness:
  "(1::int) \<le> 4 \<and>
   and_then (MultiValSparseBin_ctor exact 4 0 8 (Finite 2)) (FinishLoad exact) =
     Inr \<lparr> num_data = 0, num_bin = 8, estimate_element_per_row = NonFinite,
           data = ([] :: 8 word list), row_ptr = [0], t_data = [] \<rparr>"
  using FinishLoad_zero_rows[of 4 exact 8 2] by simp

theorem FinishLoad_zero_rows_counterexample:
  "and_then (MultiValSparseBin_ctor exact 1 0 8 (Finite 1)) (FinishLoad exact) =
     Inr \<lparr> num_data = 0, num_bin = 8, estimate_element_per_row = NonFinite,
           data = ([] :: 8 word list), row_ptr = [0], t_data = [] \<rparr> \<and>
   double_div exact (real_of_int 0) (real_of_int 0) = NonFinite"
proof -
  have c: "(MultiValSparseBin_ctor exact 1 0 8 (Finite 1) :: error + 8 word MultiValSparseBin) =
     Inr \<lparr> num_data = 0, num_bin = 8, estimate_element_per_row = Finite 1,
           data = [], row_ptr = [0], t_data = [] \<rparr>"
    using MultiValSparseBin_ctor_Inr[where e = 0 and n = 0 and num_threads = 1 and rnd = exact
        and estimate = "Finite 1" and nb = 8]
    by (simp add: estimate_num_data_no_rows INT_MAX_def)
  show ?thesis
    unfolding c
    by (simp add: FinishLoad_def MoveData_def for_range_step for_range_stop
       nth_chk_def upd_chk_def double_div_def)
qed

text \<open>
  Claim C10. The block count of \<open>CopySubFeature\<close> is
  \<open>min(num_threads, num_data_ / 1024)\<close> with the quotient rounded down. For every
  destination with fewer than 1024 rows it is 0, and the block size
  \<open>(num_data_ + n_block - 1) / n_block\<close> that follows is an integer division by zero.
\<close>

theorem CopySubFeature_small_division_by_zero:
  assumes "1 \<le> num_threads" "0 \<le> num_data b" "num_data b < 1024"
  shows "CopySubFeature num_threads b other lower upper delta = Inl DivisionByZero"
  using assms
  by (simp add: CopySubFeature_def int_div_def int_add_def int_sub_def in_int_def INT_MAX_def)

theorem CopySubFeature_small_division_by_zero_witness:
  "(1::int) \<le> 4 \<and> 0 \<le> num_data empty_three \<and> num_data empty_three < 1024 \<and>
   CopySubFeature 4 empty_three three_rows [0, 4] [4, 8] [0, 4] = Inl DivisionByZero"
  using CopySubFeature_small_division_by_zero[of 4 empty_three three_rows "[0, 4]" "[4, 8]" "[0, 4]"]
  by (simp add: empty_three_def)

text \<open>
  So it is with the three example rows and the single range \<open>[0, 8)\<close>: no row is
  copied.
\<close>

lemma CopySubFeature_three_rows_fails:
  "CopySubFeature 1 empty_three three_rows [0] [8] [0] = Inl DivisionByZero"
  by (simp add: CopySubFeature_def int_div_def int_add_def int_sub_def in_int_def INT_MAX_def
      empty_three_def)

subsection \<open>The claim on the row index after loading\<close>

text \<open>
  Claim C2. A structure is constructed for \<open>n\<close> rows on any number of threads, rows
  are pushed by valid calls of \<open>PushOneRow\<close> in any order and on any thread, no row
  twice (so in particular every row exactly once), and \<open>FinishLoad\<close> is run. The
  numbers are valid for their types: \<open>n + 1\<close> and the sum of the pushed counts are in
  the range of \<open>data_size_t\<close>, and the hint is one the constructor can make room for.
  Then all of it returns, and in the result \<open>row_ptr_\<close> has \<open>n + 1\<close> entries, starts at
  0, never decreases, grows from each pushed row to the next entry by the count pushed
  for that row (by 0 at a row that was not pushed), and ends at the sum of the pushed
  counts, which is the size of \<open>data_\<close>.
\<close>

theorem load_builds_row_index:
  assumes nt: "1 \<le> num_threads" and n: "0 \<le> n" "n < INT_MAX"
    and hint: "reservation_ok rnd n estimate"
    and ok: "\<forall>c\<in>set calls. push_ok num_threads n c"
    and once: "distinct (map push_row calls)"
    and fits: "sum_list (map push_size calls) \<le> INT_MAX"
  shows "\<exists>b' :: 'a::len word MultiValSparseBin.
     and_then (MultiValSparseBin_ctor rnd num_threads n nb estimate)
       (\<lambda>b0. and_then (push_rows b0 calls) (FinishLoad rnd)) = Inr b' \<and>
     num_data b' = n \<and> length (row_ptr b') = nat n + 1 \<and>
     row_ptr b' ! 0 = 0 \<and> sorted (row_ptr b') \<and>
     (\<forall>c\<in>set calls.
        row_ptr b' ! nat (push_row c + 1) - row_ptr b' ! nat (push_row c) = push_size c) \<and>
     (\<forall>i. 0 \<le> i \<and> i < n \<and> i \<notin> push_row ` set calls \<longrightarrow>
        row_ptr b' ! nat (i + 1) - row_ptr b' ! nat i = 0) \<and>
     row_ptr b' ! nat n = sum_list (map push_size calls) \<and>
     row_ptr b' ! nat n = int (length (data b')) \<and> finalized b'"
proof -
  let ?b0 = "\<lparr> num_data = n, num_bin = nb, estimate_element_per_row = estimate,
                 data = ([] :: 'a word list), row_ptr = replicate (nat (n + 1)) 0,
                 t_data = replicate (nat (num_threads - 1)) [] \<rparr>"
  let ?total = "sum_list (map push_size calls)"
  obtain e where e: "estimate_num_data rnd n estimate = Inr e" "0 \<le> e"
    using hint unfolding reservation_ok_def by (cases "estimate_num_data rnd n estimate") simp_all
  have ctor: "MultiValSparseBin_ctor rnd num_threads n nb estimate = Inr ?b0"
    using n nt e by (rule MultiValSparseBin_ctor_Inr)
  have len0: "length (row_ptr ?b0) = nat n + 1" using n by (simp add: nat_add_distrib)
  have nt0: "num_threads \<le> int (length (t_data ?b0)) + 1" using nt by simp
  have rp0: "row_ptr ?b0 ! j = 0" if "j \<le> nat n" for j
  proof -
    have "j < nat (n + 1)" using that n by linarith
    then show ?thesis by simp
  qed
  have zero0: "\<forall>c\<in>set calls. row_ptr ?b0 ! nat (push_row c + 1) = 0"
  proof
    fix c assume "c \<in> set calls"
    then have "0 \<le> push_row c" "push_row c < n" using ok by (auto simp: push_ok_def)
    then have "nat (push_row c + 1) \<le> nat n" by linarith
    then show "row_ptr ?b0 ! nat (push_row c + 1) = 0" by (rule rp0)
  qed
  obtain b1 where push: "push_rows ?b0 calls = Inr b1"
    and same1: "num_data b1 = n" "length (row_ptr b1) = nat n + 1"
    and st1: "stored b1 = stored ?b0 + nat ?total"
    and sm1: "sum_list (row_ptr b1) = sum_list (row_ptr ?b0) + ?total"
    and pushed: "\<forall>c\<in>set calls. row_ptr b1 ! nat (push_row c + 1) = push_size c"
    and rest: "\<forall>j. j \<notin> (\<lambda>c. nat (push_row c + 1)) ` set calls \<longrightarrow> row_ptr b1 ! j = row_ptr ?b0 ! j"
    using push_rows_Inr[OF len0 ok nt0 once zero0] len0 by auto
  have tot_nonneg: "0 \<le> ?total" using ok by (rule push_size_sum_nonneg)
  have st0: "stored ?b0 = 0" by (simp add: stored_def)
  have sm0: "sum_list (row_ptr ?b0) = 0" by (simp add: sum_list_replicate)
  have total1: "sum_list (row_ptr b1) = int (stored b1)"
    using st1 sm1 st0 sm0 tot_nonneg by simp
  have nonneg: "\<forall>x\<in>set (row_ptr b1). 0 \<le> x"
  proof
    fix x assume "x \<in> set (row_ptr b1)"
    then obtain j where j: "j < length (row_ptr b1)" "x = row_ptr b1 ! j"
      by (auto simp: in_set_conv_nth)
    show "0 \<le> x"
    proof (cases "j \<in> (\<lambda>c. nat (push_row c + 1)) ` set calls")
      case True
      then show ?thesis using pushed ok j by (auto simp: push_ok_def)
    next
      case False
      then have "row_ptr b1 ! j = row_ptr ?b0 ! j" using rest by blast
      moreover have "row_ptr ?b0 ! j = 0" using j same1 by (intro rp0) simp
      ultimately show ?thesis using j by simp
    qed
  qed
  have bound: "\<forall>j\<le>nat (num_data b1). in_int (sum_list (take (Suc j) (row_ptr b1)))"
  proof (intro allI impI)
    fix j assume "j \<le> nat (num_data b1)"
    then have "Suc j \<le> length (row_ptr b1)" using same1 by simp
    then have "sum_list (take (Suc j) (row_ptr b1)) \<le> sum_list (take (length (row_ptr b1)) (row_ptr b1))"
      by (rule sum_list_take_mono[OF nonneg])
    then have "sum_list (take (Suc j) (row_ptr b1)) \<le> ?total"
      using sm1 sm0 by simp
    moreover have "0 \<le> sum_list (take (Suc j) (row_ptr b1))"
      using nonneg by (intro sum_list_nonneg) (auto dest: in_set_takeD)
    ultimately show "in_int (sum_list (take (Suc j) (row_ptr b1)))"
      using fits by (intro in_int_between) simp_all
  qed
  obtain b2 where mv: "MoveData False [] b1 = Inr b2"
    and same2: "num_data b2 = n" "length (row_ptr b2) = nat n + 1"
    and sums: "\<forall>j\<le>nat n. row_ptr b2 ! j = sum_list (take (Suc j) (row_ptr b1))"
    and ld: "length (data b2) = stored b1"
    using MoveData_load[of b1] n same1 total1 bound by auto
  let ?b' = "b2\<lparr>t_data := [], estimate_element_per_row :=
                 double_div rnd (real_of_int (row_ptr b2 ! nat n)) (real_of_int n)\<rparr>"
  have fl: "FinishLoad rnd b1 = Inr ?b'"
    using n same2 by (simp add: FinishLoad_def mv nth_chk_Inr)
  have first0: "row_ptr b1 ! 0 = 0"
  proof -
    have "0 \<notin> (\<lambda>c. nat (push_row c + 1)) ` set calls" using ok by (auto simp: push_ok_def)
    then have "row_ptr b1 ! 0 = row_ptr ?b0 ! 0" using rest by blast
    then show ?thesis using rp0[of 0] by simp
  qed
  have ne: "row_ptr b1 \<noteq> []" using same1 by auto
  have z: "row_ptr b2 ! 0 = 0"
    using sums first0 ne by (cases "row_ptr b1") simp_all
  have srt: "sorted (row_ptr b2)"
    unfolding sorted_iff_nth_mono
  proof (intro allI impI)
    fix i j assume "i \<le> j" "j < length (row_ptr b2)"
    then show "row_ptr b2 ! i \<le> row_ptr b2 ! j"
      using sums same2 sum_list_take_mono[OF nonneg, of "Suc i" "Suc j"] by simp
  qed
  have diff: "row_ptr b2 ! nat (i + 1) - row_ptr b2 ! nat i = row_ptr b1 ! nat (i + 1)"
    if "0 \<le> i" "i < n" for i
  proof -
    have s: "nat (i + 1) = Suc (nat i)" "Suc (nat i) < length (row_ptr b1)" "Suc (nat i) \<le> nat n"
      using that same1 by simp_all
    have "sum_list (take (Suc (Suc (nat i))) (row_ptr b1)) =
        sum_list (take (Suc (nat i)) (row_ptr b1)) + row_ptr b1 ! Suc (nat i)"
      using s(2) by (simp add: take_Suc_conv_app_nth[of "Suc (nat i)"])
    then show ?thesis using sums s by simp
  qed
  have d1: "\<forall>c\<in>set calls.
        row_ptr b2 ! nat (push_row c + 1) - row_ptr b2 ! nat (push_row c) = push_size c"
    using diff pushed ok by (auto simp: push_ok_def)
  have d2: "row_ptr b2 ! nat (i + 1) - row_ptr b2 ! nat i = 0"
    if i: "0 \<le> i" "i < n" "i \<notin> push_row ` set calls" for i
  proof -
    have "nat (i + 1) \<notin> (\<lambda>c. nat (push_row c + 1)) ` set calls"
    proof
      assume "nat (i + 1) \<in> (\<lambda>c. nat (push_row c + 1)) ` set calls"
      then obtain c where c: "c \<in> set calls" "nat (i + 1) = nat (push_row c + 1)" by auto
      then have "0 \<le> push_row c" using ok by (auto simp: push_ok_def)
      then have "i = push_row c" using c(2) i by simp
      then show False using c(1) i(3) by blast
    qed
    then have "row_ptr b1 ! nat (i + 1) = row_ptr ?b0 ! nat (i + 1)" using rest by blast
    moreover have "row_ptr ?b0 ! nat (i + 1) = 0" using i by (intro rp0) linarith
    ultimately show ?thesis using diff[OF i(1,2)] by simp
  qed
  have tot: "row_ptr b2 ! nat n = ?total"
    using sums same1 sm1 sm0 by simp
  have ldata: "row_ptr b2 ! nat n = int (length (data b2))"
    using tot ld st1 st0 tot_nonneg by simp
  have lst: "last (row_ptr b2) = int (length (data b2))"
  proof -
    have "row_ptr b2 \<noteq> []" using same2 by auto
    then have "last (row_ptr b2) = row_ptr b2 ! nat n" using same2 by (simp add: last_conv_nth)
    then show ?thesis using ldata by simp
  qed
  have fin: "finalized ?b'" using n same2 z srt lst by (simp add: finalized_def)
  have run: "and_then (MultiValSparseBin_ctor rnd num_threads n nb estimate)
       (\<lambda>b0. and_then (push_rows b0 calls) (FinishLoad rnd)) = Inr ?b'"
    by (simp add: ctor push fl)
  show ?thesis
  proof (intro exI[of _ ?b'] conjI)
    show "and_then (MultiValSparseBin_ctor rnd num_threads n nb estimate)
       (\<lambda>b0. and_then (push_rows b0 calls) (FinishLoad rnd)) = Inr ?b'" by (rule run)
    show "finalized ?b'" by (rule fin)
    show "\<forall>i. 0 \<le> i \<and> i < n \<and> i \<notin> push_row ` set calls \<longrightarrow>
        row_ptr ?b' ! nat (i + 1) - row_ptr ?b' ! nat i = 0" using d2 by simp
  qed (use same2 z srt d1 tot ldata in simp_all)
qed

theorem load_builds_row_index_witness:
  "(1::int) \<le> 2 \<and> (0::int) \<le> 3 \<and> 3 < INT_MAX \<and> reservation_ok exact 3 (Finite 1) \<and>
   push_ok 2 3 (1, 2, [1], 1) \<and> push_ok 2 3 (0, 0, [3, 7], 2) \<and> push_ok 2 3 (0, 1, [], 0) \<and>
   distinct (map push_row [(1, 2, [1], 1), (0, 0, [3, 7], 2), (0, 1, [], 0)]) \<and>
   sum_list (map push_size [(1, 2, [1], 1), (0, 0, [3, 7], 2), (0, 1, [], 0)]) \<le> INT_MAX \<and>
   and_then (MultiValSparseBin_ctor exact 2 3 8 (Finite 1))
       (\<lambda>b0. and_then (push_rows b0 [(1, 2, [1], 1), (0, 0, [3, 7], 2), (0, 1, [], 0)])
          (FinishLoad exact))
     = Inr three_rows \<and>
   row_ptr three_rows ! 0 = 0 \<and> sorted (row_ptr three_rows) \<and>
   row_ptr three_rows ! nat 3 = sum_list (map push_size [(1, 2, [1], 1), (0, 0, [3, 7], 2), (0, 1, [], 0)])"
proof -
  let ?calls = "[(1, 2, [1], 1), (0, 0, [3, 7], 2), (0, 1, [], 0)] :: push_call list"
  have ok: "\<forall>c\<in>set ?calls. push_ok 2 3 c" by (simp add: push_ok_def push_row_def push_size_def)
  have once: "distinct (map push_row ?calls)" by (simp add: push_row_def)
  have fits: "sum_list (map push_size ?calls) \<le> INT_MAX" by (simp add: push_size_def INT_MAX_def)
  have n: "(3::int) < INT_MAX" by (simp add: INT_MAX_def)
  have hint: "reservation_ok exact 3 (Finite 1)"
    by (simp add: reservation_ok_def estimate_num_data_exact to_data_size_Inr INT_MAX_def)
  have run: "and_then (MultiValSparseBin_ctor exact 2 3 8 (Finite 1))
       (\<lambda>b0. and_then (push_rows b0 ?calls) (FinishLoad exact)) = Inr three_rows"
    using load_three_rows by (simp add: and_then_assoc)
  obtain b' :: "8 word MultiValSparseBin" where
    b: "and_then (MultiValSparseBin_ctor exact 2 3 8 (Finite 1))
       (\<lambda>b0. and_then (push_rows b0 ?calls) (FinishLoad exact)) = Inr b'"
    and p: "row_ptr b' ! 0 = 0" "sorted (row_ptr b')"
      "row_ptr b' ! nat 3 = sum_list (map push_size ?calls)"
    using load_builds_row_index[where num_threads = 2 and n = 3 and calls = ?calls and nb = 8
        and estimate = "Finite 1" and rnd = exact, OF _ _ n hint ok once fits] by auto
  have "b' = three_rows" using b run by simp
  then show ?thesis using ok once run p n hint fits by simp
qed

subsection \<open>The claim on the sub-feature copy\<close>




end
